theory Spec2Isabelle
  imports Complex_Main "HOL-Library.Word" "HOL-Library.Monad_Syntax"
begin

unbundle bit_operations_syntax

section \<open>Machine types of the Go program\<close>

text \<open>
  \<open>uint64\<close> is a 64-bit word. Go's \<open>uint\<close> and \<open>int\<close> are 64 bits wide on
  64-bit targets, which is the width modelled here: \<open>go_uint\<close> is read with \<open>unat\<close>,
  \<open>go_int\<close> is two's complement and read with \<open>sint\<close>; \<open>+\<close> and \<open>*\<close> wrap.
  A run-time panic is the value \<open>None\<close>.
\<close>

type_synonym uint64 = "64 word"
type_synonym go_uint = "64 word"
type_synonym go_int = "64 word"

text \<open>The constants of \<open>z_order.go\<close>.\<close>

definition maxDimBits :: nat where
  "maxDimBits = 16"

definition maxDimVal :: nat where
  "maxDimVal = 2 ^ 16 - 1"

text \<open>
  The expression \<open>1 << s\<close> for a 64-bit unsigned result and a signed shift count \<open>s\<close>:
  Go panics on a negative count, and a count of 64 or more shifts every bit out.
\<close>

definition shl1 :: "go_int \<Rightarrow> uint64 option" where
  "shl1 s = (if sint s < 0 then None else Some (push_bit (nat (sint s)) 1))"

section \<open>The codec: \<open>lookupVal\<close> and \<open>setVal\<close>\<close>

text \<open>
  The loop of \<open>lookupVal\<close>, from counter \<open>i\<close> with the accumulator \<open>res\<close>:
  \<^verbatim>\<open>for i := 0; i < maxDimBits; i += 1 {
      queryMask := uint64(1 << (i*4 + start))
      if queryMask&val > 0 { res |= 1 << i }
  }\<close>
\<close>

function lookupVal_loop :: "uint64 \<Rightarrow> go_int \<Rightarrow> nat \<Rightarrow> go_uint \<Rightarrow> go_uint option" where
  "lookupVal_loop val start i res =
     (if i < maxDimBits then
        (case shl1 (of_nat i * 4 + start) of
           None \<Rightarrow> None
         | Some queryMask \<Rightarrow>
             lookupVal_loop val start (i + 1)
               (if 0 < queryMask AND val then res OR push_bit i 1 else res))
      else Some res)"
  by pat_completeness auto
termination
  by (relation "measure (\<lambda>(val, start, i, res). maxDimBits - i)") auto

declare lookupVal_loop.simps [simp del]

definition lookupVal :: "uint64 \<Rightarrow> go_int \<Rightarrow> go_uint option" where
  "lookupVal val start = lookupVal_loop val start 0 0"

text \<open>
  The first loop of \<open>setVal\<close> builds the clear mask:
  \<^verbatim>\<open>for i := 0; i < maxDimBits; i += 1 { clearMask ^= 1 << (i*4 + start) }\<close>
\<close>

function clearMask_loop :: "go_int \<Rightarrow> nat \<Rightarrow> uint64 \<Rightarrow> uint64 option" where
  "clearMask_loop start i clearMask =
     (if i < maxDimBits then
        (case shl1 (of_nat i * 4 + start) of
           None \<Rightarrow> None
         | Some m \<Rightarrow> clearMask_loop start (i + 1) (clearMask XOR m))
      else Some clearMask)"
  by pat_completeness auto
termination
  by (relation "measure (\<lambda>(start, i, clearMask). maxDimBits - i)") auto

declare clearMask_loop.simps [simp del]

text \<open>
  The second loop of \<open>setVal\<close> writes the bits of \<open>varVal\<close>; the shift is evaluated
  only when the tested bit is set:
  \<^verbatim>\<open>for i := 0; i < maxDimBits; i += 1 {
      if varVal&(1<<i) > 0 { res |= 1 << (i*4 + start) }
  }\<close>
\<close>

function setBits_loop :: "go_uint \<Rightarrow> go_int \<Rightarrow> nat \<Rightarrow> uint64 \<Rightarrow> uint64 option" where
  "setBits_loop varVal start i res =
     (if i < maxDimBits then
        (if 0 < varVal AND push_bit i 1 then
           (case shl1 (of_nat i * 4 + start) of
              None \<Rightarrow> None
            | Some m \<Rightarrow> setBits_loop varVal start (i + 1) (res OR m))
         else setBits_loop varVal start (i + 1) res)
      else Some res)"
  by pat_completeness auto
termination
  by (relation "measure (\<lambda>(varVal, start, i, res). maxDimBits - i)") auto

declare setBits_loop.simps [simp del]

definition setVal :: "uint64 \<Rightarrow> go_uint \<Rightarrow> go_int \<Rightarrow> uint64 option" where
  "setVal encodedVal varVal start =
     do {
       clearMask \<leftarrow> clearMask_loop start 0 (- 1);
       setBits_loop varVal start 0 (encodedVal AND clearMask)
     }"

section \<open>\<open>RectHash\<close> and its accessors\<close>

record RectHash =
  Val :: uint64

definition X0 :: "RectHash \<Rightarrow> go_uint option" where
  "X0 r = lookupVal (Val r) 3"

definition SetX0 :: "RectHash \<Rightarrow> go_uint \<Rightarrow> RectHash option" where
  "SetX0 r val = map_option (\<lambda>v. r\<lparr>Val := v\<rparr>) (setVal (Val r) val 3)"

definition X1 :: "RectHash \<Rightarrow> go_uint option" where
  "X1 r = lookupVal (Val r) 2"

definition SetX1 :: "RectHash \<Rightarrow> go_uint \<Rightarrow> RectHash option" where
  "SetX1 r val = map_option (\<lambda>v. r\<lparr>Val := v\<rparr>) (setVal (Val r) val 2)"

definition Y0 :: "RectHash \<Rightarrow> go_uint option" where
  "Y0 r = lookupVal (Val r) 1"

definition SetY0 :: "RectHash \<Rightarrow> go_uint \<Rightarrow> RectHash option" where
  "SetY0 r val = map_option (\<lambda>v. r\<lparr>Val := v\<rparr>) (setVal (Val r) val 1)"

definition Y1 :: "RectHash \<Rightarrow> go_uint option" where
  "Y1 r = lookupVal (Val r) 0"

definition SetY1 :: "RectHash \<Rightarrow> go_uint \<Rightarrow> RectHash option" where
  "SetY1 r val = map_option (\<lambda>v. r\<lparr>Val := v\<rparr>) (setVal (Val r) val 0)"

section \<open>The span computation of \<open>main\<close>\<close>

text \<open>
  \<open>main\<close> computes the truncated rectangle and the two span rectangles from \<open>rect\<close>
  and the constant \<open>precisionBits\<close> (4 in the program). The constant is a parameter
  here; the program compiles only when it is at most \<open>maxDimBits\<close>, since
  \<open>inc = 1 << (maxDimBits - precisionBits)\<close> is a constant shift.
\<close>

definition inc :: "nat \<Rightarrow> nat" where
  "inc precisionBits = 2 ^ (maxDimBits - precisionBits)"

definition truncBits :: "nat \<Rightarrow> nat" where
  "truncBits precisionBits = (maxDimBits - precisionBits) * 4"

text \<open>\<^verbatim>\<open>minRectVal := rect.Val >> uint64(truncBits); minRectVal <<= uint64(truncBits)\<close>\<close>

definition minRectVal :: "uint64 \<Rightarrow> nat \<Rightarrow> uint64" where
  "minRectVal v precisionBits =
     push_bit (truncBits precisionBits) (drop_bit (truncBits precisionBits) v)"

definition minRect :: "RectHash \<Rightarrow> nat \<Rightarrow> RectHash" where
  "minRect rect precisionBits = \<lparr>Val = minRectVal (Val rect) precisionBits\<rparr>"

definition minSpanRect :: "RectHash \<Rightarrow> nat \<Rightarrow> RectHash option" where
  "minSpanRect mr precisionBits =
     do {
       x0 \<leftarrow> X0 mr;
       r1 \<leftarrow> SetX0 \<lparr>Val = 0\<rparr> (x0 + of_nat (inc precisionBits));
       y0 \<leftarrow> Y0 mr;
       r2 \<leftarrow> SetY0 r1 (y0 + of_nat (inc precisionBits));
       x1 \<leftarrow> X1 mr;
       r3 \<leftarrow> SetX1 r2 x1;
       y1 \<leftarrow> Y1 mr;
       SetY1 r3 y1
     }"

definition maxSpanRect :: "RectHash \<Rightarrow> nat \<Rightarrow> RectHash option" where
  "maxSpanRect mr precisionBits =
     do {
       x0 \<leftarrow> X0 mr;
       r1 \<leftarrow> SetX0 \<lparr>Val = 0\<rparr> x0;
       y0 \<leftarrow> Y0 mr;
       r2 \<leftarrow> SetY0 r1 y0;
       x1 \<leftarrow> X1 mr;
       r3 \<leftarrow> SetX1 r2 (x1 + of_nat (inc precisionBits));
       y1 \<leftarrow> Y1 mr;
       SetY1 r3 (y1 + of_nat (inc precisionBits))
     }"

section \<open>The coordinate mapper: \<open>Ratio\<close> and \<open>Int\<close>\<close>

text \<open>
  \<open>Ratio\<close> and \<open>Int\<close> compute in \<open>float32\<close>. A finite \<open>float32\<close> value is modelled by
  the rational number it denotes, and every arithmetic operation or conversion returns
  the exact result rounded to the nearest \<open>float32\<close>, ties to the even significand
  (IEEE 754 binary32: 24 significant bits, least exponent \<open>-149\<close>). A result that
  overflows to infinity is \<open>None\<close>.

  \<open>round_half_even\<close> rounds to the nearest integer, ties to even.
\<close>

definition round_half_even :: "rat \<Rightarrow> int" where
  "round_half_even x =
     (let f = \<lfloor>x\<rfloor>; r = x - of_int f
      in if r < 1 / 2 then f else if 1 / 2 < r then f + 1 else if even f then f else f + 1)"

text \<open>
  For \<open>q \<ge> 0\<close>: the unit in the last place is \<open>2^e\<close> for the least exponent \<open>e\<close> in
  \<open>[-149, 104]\<close> with \<open>q < 2^(e + 24)\<close>; exponent \<open>-149\<close> covers the subnormal range.
\<close>

definition f32_round_pos :: "rat \<Rightarrow> rat option" where
  "f32_round_pos q =
     (case List.find (\<lambda>e. q < power_int 2 (e + 24)) [- 149..104] of
        None \<Rightarrow> None
      | Some e \<Rightarrow>
          (let r = of_int (round_half_even (q / power_int 2 e)) * power_int 2 e
           in if r < 2 ^ 128 then Some r else None))"

definition f32_round :: "rat \<Rightarrow> rat option" where
  "f32_round q = (if 0 \<le> q then f32_round_pos q else map_option uminus (f32_round_pos (- q)))"

text \<open>
  \<^verbatim>\<open>func Ratio(val uint) float32 { return float32(val) / maxDimVal }\<close>
  The conversion \<open>float32(val)\<close> rounds; the constant \<open>maxDimVal\<close> is exact in
  \<open>float32\<close>.
\<close>

definition Ratio :: "go_uint \<Rightarrow> rat option" where
  "Ratio val = do {
     f \<leftarrow> f32_round (of_nat (unat val));
     f32_round (f / of_nat maxDimVal)
   }"

text \<open>
  \<^verbatim>\<open>func Int(val float32) uint { return uint((val / 100) * maxDimVal) }\<close>
  (named \<open>Int_go\<close> here). The conversion to \<open>uint\<close> discards the fraction. When the
  truncated value is not a \<open>uint\<close>, Go does not panic and returns an
  implementation-dependent value; \<open>None\<close> stands for that unspecified value here.
\<close>

definition Int_go :: "rat \<Rightarrow> go_uint option" where
  "Int_go val = do {
     a \<leftarrow> f32_round (val / 100);
     b \<leftarrow> f32_round (a * of_nat maxDimVal);
     let t = (if 0 \<le> b then \<lfloor>b\<rfloor> else \<lceil>b\<rceil>);
     if 0 \<le> t \<and> t < 2 ^ 64 then Some (of_int t) else None
   }"

section \<open>Shifts with an offset in range\<close>

lemma offset_cases:
  fixes d :: go_int
  assumes "0 \<le> sint d" and "sint d \<le> 3"
  obtains n where "n \<le> 3" and "d = of_nat n"
proof -
  have "d = of_nat (nat (sint d))"
    using assms by simp
  moreover have "nat (sint d) \<le> 3"
    using assms by simp
  ultimately show thesis
    using that by blast
qed

lemma sint_small_of_nat:
  assumes "m < 64"
  shows "sint (of_nat m :: go_int) = int m"
proof -
  have "int m < 2 ^ 63"
    using assms by simp
  then show ?thesis
    by (simp add: signed_of_nat signed_take_bit_int_eq_self)
qed

lemma shl1_in_range:
  assumes "n \<le> 3" and "i < 16"
  shows "shl1 (of_nat i * 4 + of_nat n) = Some (2 ^ (4 * i + n))"
proof -
  define m where "m = 4 * i + n"
  have m: "m < 64"
    using assms by (simp add: m_def)
  have eq: "(of_nat i * 4 + of_nat n :: go_int) = of_nat m"
    by (simp add: m_def mult.commute)
  have "shl1 (of_nat m) = Some (2 ^ m)"
    unfolding shl1_def using sint_small_of_nat [OF m]
    by (simp add: push_bit_of_1)
  then show ?thesis
    unfolding eq by (simp only: m_def)
qed

lemma mask_test:
  fixes val :: uint64
  shows "0 < 2 ^ m AND val \<longleftrightarrow> bit val m"
  using and_exp_eq_0_iff_not_bit [of val m]
  by (simp add: word_greater_zero_iff and.commute)

lemma mask_test':
  fixes val :: uint64
  shows "0 < val AND 2 ^ m \<longleftrightarrow> bit val m"
  using and_exp_eq_0_iff_not_bit [of val m]
  by (simp add: word_greater_zero_iff)

lemma slot_iff:
  fixes n :: nat
  assumes "n \<le> 3"
  shows "j = 4 * i + n \<longleftrightarrow> j mod 4 = n \<and> j div 4 = i"
  using assms by auto

lemma slot_div_mod:
  fixes n :: nat
  assumes "n \<le> 3"
  shows "(4 * j + n) mod 4 = n" and "(4 * j + n) div 4 = j"
  using assms by simp_all

lemma pow_slot:
  fixes n :: nat
  assumes "n \<le> 3" and "i < 16"
  shows "bit (2 ^ (4 * i + n) :: uint64) j \<longleftrightarrow> j mod 4 = n \<and> j div 4 = i"
proof -
  have "4 * i + n < 64"
    using assms by simp
  then have "bit (2 ^ (4 * i + n) :: uint64) j \<longleftrightarrow> j = 4 * i + n"
    by (auto simp add: bit_exp_iff possible_bit_word)
  then show ?thesis
    by (simp only: slot_iff [OF assms(1)])
qed

lemma pow_low:
  assumes "i < 16"
  shows "bit (2 ^ i :: go_uint) j \<longleftrightarrow> j = i"
  using assms by (auto simp add: bit_exp_iff possible_bit_word)

text \<open>One more iteration extends what the rest of the loop contributes.\<close>

lemma merge_step:
  fixes i j :: nat
  assumes new: "R \<longleftrightarrow> A \<or> (j = i \<and> B i)"
    and ih: "Q \<longleftrightarrow> R \<or> (i + 1 \<le> j \<and> j < 16 \<and> B j)"
    and i: "i < 16"
  shows "Q \<longleftrightarrow> A \<or> (i \<le> j \<and> j < 16 \<and> B j)"
proof (cases "j = i")
  case True
  with new ih i show ?thesis
    by simp
next
  case False
  then have "i + 1 \<le> j \<longleftrightarrow> i \<le> j"
    by linarith
  with False new ih show ?thesis
    by simp
qed

lemma merge_step_xor:
  fixes i q :: nat
  assumes new: "R \<longleftrightarrow> (A \<noteq> (M \<and> q = i))"
    and ih: "Q \<longleftrightarrow> (R \<noteq> (M \<and> i + 1 \<le> q \<and> q < 16))"
    and i: "i < 16"
  shows "Q \<longleftrightarrow> (A \<noteq> (M \<and> i \<le> q \<and> q < 16))"
proof (cases "q = i")
  case True
  with new ih i show ?thesis
    by simp
next
  case False
  then have "i + 1 \<le> q \<longleftrightarrow> i \<le> q"
    by linarith
  with False new ih show ?thesis
    by simp
qed

lemma merge_step_slot:
  fixes i q :: nat
  assumes new: "R \<longleftrightarrow> A \<or> (M \<and> q = i \<and> B i)"
    and ih: "Q \<longleftrightarrow> R \<or> (M \<and> i + 1 \<le> q \<and> q < 16 \<and> B q)"
    and i: "i < 16"
  shows "Q \<longleftrightarrow> A \<or> (M \<and> i \<le> q \<and> q < 16 \<and> B q)"
proof (cases "q = i")
  case True
  with new ih i show ?thesis
    by simp
next
  case False
  then have "i + 1 \<le> q \<longleftrightarrow> i \<le> q"
    by linarith
  with False new ih show ?thesis
    by simp
qed

section \<open>Loop invariants of the codec\<close>

lemma lookupVal_loop_bits:
  assumes "n \<le> 3"
  shows "\<exists>r. lookupVal_loop val (of_nat n) i res = Some r \<and>
           (\<forall>j. bit r j \<longleftrightarrow> bit res j \<or> (i \<le> j \<and> j < 16 \<and> bit val (4 * j + n)))"
proof (induction "16 - i" arbitrary: i res)
  case 0
  then have "\<not> i < maxDimBits"
    by (simp add: maxDimBits_def)
  then have "lookupVal_loop val (of_nat n) i res = Some res"
    by (subst lookupVal_loop.simps) simp
  moreover have "\<not> (i \<le> j \<and> j < 16)" for j
    using 0 by simp
  ultimately show ?case
    by blast
next
  case (Suc k)
  then have i: "i < 16" and k: "k = 16 - (i + 1)"
    by simp_all
  define res' where "res' = (if bit val (4 * i + n) then res OR 2 ^ i else res)"
  have step: "lookupVal_loop val (of_nat n) i res = lookupVal_loop val (of_nat n) (i + 1) res'"
    using i by (subst lookupVal_loop.simps)
      (simp add: maxDimBits_def shl1_in_range [OF assms i] mask_test res'_def push_bit_of_1)
  from Suc.hyps(1) [OF k, of res'] obtain r where
    r: "lookupVal_loop val (of_nat n) (i + 1) res' = Some r"
    and bits: "\<And>j. bit r j \<longleftrightarrow> bit res' j \<or> (i + 1 \<le> j \<and> j < 16 \<and> bit val (4 * j + n))"
    by blast
  have new: "bit res' j \<longleftrightarrow> bit res j \<or> (j = i \<and> bit val (4 * i + n))" for j
    unfolding res'_def by (simp add: bit_or_iff pow_low [OF i])
  have "bit r j \<longleftrightarrow> bit res j \<or> (i \<le> j \<and> j < 16 \<and> bit val (4 * j + n))" for j
    by (rule merge_step [where B = "\<lambda>m. bit val (4 * m + n)", OF new bits i])
  with step r show ?case
    by simp
qed

lemma clearMask_loop_bits:
  assumes "n \<le> 3"
  shows "\<exists>r. clearMask_loop (of_nat n) i cm = Some r \<and>
           (\<forall>j. bit r j \<longleftrightarrow>
              (bit cm j \<noteq> (j mod 4 = n \<and> i \<le> j div 4 \<and> j div 4 < 16)))"
proof (induction "16 - i" arbitrary: i cm)
  case 0
  then have "\<not> i < maxDimBits"
    by (simp add: maxDimBits_def)
  then have "clearMask_loop (of_nat n) i cm = Some cm"
    by (subst clearMask_loop.simps) simp
  moreover have "\<not> (i \<le> j div 4 \<and> j div 4 < 16)" for j
    using 0 by simp
  ultimately show ?case
    by blast
next
  case (Suc k)
  then have i: "i < 16" and k: "k = 16 - (i + 1)"
    by simp_all
  define cm' where "cm' = cm XOR 2 ^ (4 * i + n)"
  have step: "clearMask_loop (of_nat n) i cm = clearMask_loop (of_nat n) (i + 1) cm'"
    using i by (subst clearMask_loop.simps)
      (simp add: maxDimBits_def shl1_in_range [OF assms i] cm'_def)
  from Suc.hyps(1) [OF k, of cm'] obtain r where
    r: "clearMask_loop (of_nat n) (i + 1) cm' = Some r"
    and bits: "\<And>j. bit r j \<longleftrightarrow>
       (bit cm' j \<noteq> (j mod 4 = n \<and> i + 1 \<le> j div 4 \<and> j div 4 < 16))"
    by blast
  have new: "bit cm' j \<longleftrightarrow> (bit cm j \<noteq> (j mod 4 = n \<and> j div 4 = i))" for j
    unfolding cm'_def by (simp add: bit_xor_iff pow_slot [OF assms i])
  have "bit r j \<longleftrightarrow> (bit cm j \<noteq> (j mod 4 = n \<and> i \<le> j div 4 \<and> j div 4 < 16))" for j
    by (rule merge_step_xor [OF new bits i])
  with step r show ?case
    by simp
qed

lemma setBits_loop_bits:
  assumes "n \<le> 3"
  shows "\<exists>r. setBits_loop v (of_nat n) i res = Some r \<and>
           (\<forall>j. bit r j \<longleftrightarrow>
              bit res j \<or> (j mod 4 = n \<and> i \<le> j div 4 \<and> j div 4 < 16 \<and> bit v (j div 4)))"
proof (induction "16 - i" arbitrary: i res)
  case 0
  then have "\<not> i < maxDimBits"
    by (simp add: maxDimBits_def)
  then have "setBits_loop v (of_nat n) i res = Some res"
    by (subst setBits_loop.simps) simp
  moreover have "\<not> (i \<le> j div 4 \<and> j div 4 < 16)" for j
    using 0 by simp
  ultimately show ?case
    by blast
next
  case (Suc k)
  then have i: "i < 16" and k: "k = 16 - (i + 1)"
    by simp_all
  define res' where "res' = (if bit v i then res OR 2 ^ (4 * i + n) else res)"
  have step: "setBits_loop v (of_nat n) i res = setBits_loop v (of_nat n) (i + 1) res'"
    using i by (subst setBits_loop.simps)
      (simp add: maxDimBits_def shl1_in_range [OF assms i] mask_test' res'_def push_bit_of_1)
  from Suc.hyps(1) [OF k, of res'] obtain r where
    r: "setBits_loop v (of_nat n) (i + 1) res' = Some r"
    and bits: "\<And>j. bit r j \<longleftrightarrow>
       bit res' j \<or> (j mod 4 = n \<and> i + 1 \<le> j div 4 \<and> j div 4 < 16 \<and> bit v (j div 4))"
    by blast
  have new: "bit res' j \<longleftrightarrow> bit res j \<or> (j mod 4 = n \<and> j div 4 = i \<and> bit v i)" for j
    unfolding res'_def by (simp add: bit_or_iff pow_slot [OF assms i])
  have "bit r j \<longleftrightarrow>
       bit res j \<or> (j mod 4 = n \<and> i \<le> j div 4 \<and> j div 4 < 16 \<and> bit v (j div 4))" for j
    by (rule merge_step_slot [where B = "bit v", OF new bits i])
  with step r show ?case
    by simp
qed

section \<open>Bit-level description of \<open>lookupVal\<close> and \<open>setVal\<close>\<close>

lemma lookupVal_bits:
  assumes "n \<le> 3"
  obtains r where "lookupVal val (of_nat n) = Some r"
    and "\<And>j. bit r j \<longleftrightarrow> j < 16 \<and> bit val (4 * j + n)"
proof -
  from lookupVal_loop_bits [OF assms, of val 0 0] obtain r where
    "lookupVal_loop val (of_nat n) 0 0 = Some r"
    and "\<And>j. bit r j \<longleftrightarrow> bit (0 :: go_uint) j \<or> (0 \<le> j \<and> j < 16 \<and> bit val (4 * j + n))"
    by blast
  then show thesis
    using that [of r] by (simp add: lookupVal_def)
qed

lemma setVal_bits:
  assumes "n \<le> 3"
  obtains r where "setVal k v (of_nat n) = Some r"
    and "\<And>j. bit r j \<longleftrightarrow> (if j mod 4 = n then j < 64 \<and> bit v (j div 4) else bit k j)"
proof -
  from clearMask_loop_bits [OF assms, of 0 "- 1"] obtain cm where
    cm: "clearMask_loop (of_nat n) 0 (- 1) = Some cm"
    and cm_bits: "\<And>j. bit cm j \<longleftrightarrow>
      (bit (- 1 :: uint64) j \<noteq> (j mod 4 = n \<and> 0 \<le> j div 4 \<and> j div 4 < 16))"
    by blast
  from setBits_loop_bits [OF assms, of v 0 "k AND cm"] obtain r where
    r: "setBits_loop v (of_nat n) 0 (k AND cm) = Some r"
    and r_bits: "\<And>j. bit r j \<longleftrightarrow>
       bit (k AND cm) j \<or> (j mod 4 = n \<and> 0 \<le> j div 4 \<and> j div 4 < 16 \<and> bit v (j div 4))"
    by blast
  have "setVal k v (of_nat n) = Some r"
    by (simp add: setVal_def cm r)
  moreover have "bit r j \<longleftrightarrow> (if j mod 4 = n then j < 64 \<and> bit v (j div 4) else bit k j)" for j
  proof -
    have lt: "j div 4 < 16 \<longleftrightarrow> j < 64"
      by linarith
    have cm_j: "bit cm j \<longleftrightarrow> j < 64 \<and> j mod 4 \<noteq> n"
      unfolding cm_bits by (simp add: lt possible_bit_word) blast
    show ?thesis
    proof (cases "j mod 4 = n")
      case True
      then show ?thesis
        unfolding r_bits bit_and_iff cm_j by (simp add: lt)
    next
      case False
      then show ?thesis
        unfolding r_bits bit_and_iff cm_j using bit_imp_le_length [of k j] by auto
    qed
  qed
  ultimately show thesis
    using that by blast
qed

lemma lookupVal_setVal_same:
  assumes "n \<le> 3"
  shows "setVal k v (of_nat n) \<bind> (\<lambda>k'. lookupVal k' (of_nat n)) = Some (take_bit 16 v)"
proof -
  from setVal_bits [OF assms, of k v] obtain k' where
    k': "setVal k v (of_nat n) = Some k'"
    and k'_bits: "\<And>j. bit k' j \<longleftrightarrow> (if j mod 4 = n then j < 64 \<and> bit v (j div 4) else bit k j)"
    by blast
  from lookupVal_bits [OF assms, of k'] obtain r where
    r: "lookupVal k' (of_nat n) = Some r"
    and r_bits: "\<And>j. bit r j \<longleftrightarrow> j < 16 \<and> bit k' (4 * j + n)"
    by blast
  have "bit r j \<longleftrightarrow> bit (take_bit 16 v) j" for j
  proof -
    have "j < 16 \<Longrightarrow> 4 * j + n < 64"
      using assms by simp
    then show ?thesis
      unfolding r_bits k'_bits slot_div_mod [OF assms] bit_take_bit_iff by auto
  qed
  then have "r = take_bit 16 v"
    by (simp add: bit_eq_iff)
  then show ?thesis
    by (simp add: k' r)
qed

lemma lookupVal_setVal_other:
  assumes "n \<le> 3" and "n' \<le> 3" and "n \<noteq> n'"
  shows "setVal k v (of_nat n) \<bind> (\<lambda>k'. lookupVal k' (of_nat n')) = lookupVal k (of_nat n')"
proof -
  from setVal_bits [OF assms(1), of k v] obtain k' where
    k': "setVal k v (of_nat n) = Some k'"
    and k'_bits: "\<And>j. bit k' j \<longleftrightarrow> (if j mod 4 = n then j < 64 \<and> bit v (j div 4) else bit k j)"
    by blast
  from lookupVal_bits [OF assms(2), of k'] obtain r where
    r: "lookupVal k' (of_nat n') = Some r"
    and r_bits: "\<And>j. bit r j \<longleftrightarrow> j < 16 \<and> bit k' (4 * j + n')"
    by blast
  from lookupVal_bits [OF assms(2), of k] obtain r0 where
    r0: "lookupVal k (of_nat n') = Some r0"
    and r0_bits: "\<And>j. bit r0 j \<longleftrightarrow> j < 16 \<and> bit k (4 * j + n')"
    by blast
  have "bit r j \<longleftrightarrow> bit r0 j" for j
    unfolding r_bits r0_bits k'_bits slot_div_mod [OF assms(2)] using assms(3) by simp
  then have "r = r0"
    by (simp add: bit_eq_iff)
  then show ?thesis
    by (simp add: k' r r0)
qed

lemma setVal_lookupVal_same:
  assumes "n \<le> 3"
  shows "lookupVal k (of_nat n) \<bind> (\<lambda>v. setVal k v (of_nat n)) = Some k"
proof -
  from lookupVal_bits [OF assms, of k] obtain v where
    v: "lookupVal k (of_nat n) = Some v"
    and v_bits: "\<And>j. bit v j \<longleftrightarrow> j < 16 \<and> bit k (4 * j + n)"
    by blast
  from setVal_bits [OF assms, of k v] obtain k' where
    k': "setVal k v (of_nat n) = Some k'"
    and k'_bits: "\<And>j. bit k' j \<longleftrightarrow> (if j mod 4 = n then j < 64 \<and> bit v (j div 4) else bit k j)"
    by blast
  have "bit k' j \<longleftrightarrow> bit k j" for j
  proof (cases "j mod 4 = n")
    case True
    have "4 * (j div 4) + j mod 4 = j"
      by simp
    then have j: "4 * (j div 4) + n = j"
      using True by simp
    have lt: "j div 4 < 16 \<longleftrightarrow> j < 64"
      by linarith
    have "bit k' j \<longleftrightarrow> j < 64 \<and> bit k j"
      unfolding k'_bits v_bits j using True by (simp add: lt)
    then show ?thesis
      using bit_imp_le_length [of k j] by auto
  next
    case False
    then show ?thesis
      by (simp add: k'_bits)
  qed
  then have "k' = k"
    by (simp add: bit_eq_iff)
  then show ?thesis
    by (simp add: v k')
qed

lemma lookupVal_bound:
  assumes "n \<le> 3" and "lookupVal k (of_nat n) = Some r"
  shows "unat r < 2 ^ 16"
proof -
  from lookupVal_bits [OF assms(1), of k] obtain r' where
    "lookupVal k (of_nat n) = Some r'"
    and "\<And>j. bit r' j \<longleftrightarrow> j < 16 \<and> bit k (4 * j + n)"
    by blast
  with assms(2) have r_bits: "\<And>j. bit r j \<longleftrightarrow> j < 16 \<and> bit k (4 * j + n)"
    by simp
  have "take_bit 16 r = r"
    by (rule bit_word_eqI) (simp add: bit_take_bit_iff r_bits)
  then have "unat r = unat (take_bit 16 r)"
    by simp
  also have "\<dots> < 2 ^ 16"
    by (simp only: unsigned_take_bit_eq take_bit_nat_less_exp)
  finally show ?thesis .
qed

lemma take_bit_16_id:
  fixes v :: go_uint
  assumes "unat v \<le> maxDimVal"
  shows "take_bit 16 v = v"
proof (rule unsigned_word_eqI [where ?'a = nat])
  have "unat v < 2 ^ 16"
    using assms by (simp add: maxDimVal_def)
  then show "unat (take_bit 16 v) = unat v"
    by (simp only: unsigned_take_bit_eq take_bit_nat_eq_self)
qed

lemma unat_take_bit_16:
  fixes v :: go_uint
  shows "unat (take_bit 16 v) = unat v mod 2 ^ 16"
  unfolding unsigned_take_bit_eq by (rule take_bit_eq_mod)

lemma accessor_offsets:
  "(3 :: go_int) = of_nat 3" "(2 :: go_int) = of_nat 2" "(1 :: go_int) = of_nat 1"
  "(0 :: go_int) = of_nat 0"
  by simp_all

section \<open>Claims about the codec\<close>

text \<open>
  Claim C1 (round trip). For every dimension offset \<open>d\<close> in \<open>[0,3]\<close>, every prior key
  \<open>k\<close> and every value \<open>v\<close> in \<open>[0, 2^16 - 1]\<close>, decoding offset \<open>d\<close> of the key
  that \<open>setVal\<close> produces from \<open>k\<close>, \<open>v\<close> and \<open>d\<close> returns exactly \<open>v\<close>, and neither
  call panics. The witness instantiates it at \<open>k = 0\<close> with the edge values \<open>2^16 - 1\<close>
  and \<open>0\<close>.
\<close>

theorem roundtrip_lookupVal_setVal:
  assumes "0 \<le> sint d" and "sint d \<le> 3" and "unat v \<le> maxDimVal"
  shows "setVal k v d \<bind> (\<lambda>k'. lookupVal k' d) = Some v"
proof -
  from assms(1,2) obtain n where n: "n \<le> 3" and d: "d = of_nat n"
    by (rule offset_cases)
  show ?thesis
    unfolding d lookupVal_setVal_same [OF n] take_bit_16_id [OF assms(3)] ..
qed

theorem roundtrip_lookupVal_setVal_witness:
  "0 \<le> sint (3 :: go_int) \<and> sint (3 :: go_int) \<le> 3 \<and> unat (65535 :: go_uint) \<le> maxDimVal
   \<and> setVal 0 65535 3 \<bind> (\<lambda>k'. lookupVal k' 3) = Some 65535
   \<and> setVal 0 0 3 \<bind> (\<lambda>k'. lookupVal k' 3) = Some 0"
  using roundtrip_lookupVal_setVal [of 3 65535 0] roundtrip_lookupVal_setVal [of 3 0 0]
  by (simp add: maxDimVal_def)

text \<open>
  Claim C5 (dimension isolation). For every key \<open>k\<close>, every value \<open>v\<close> and distinct
  offsets \<open>d\<close> and \<open>d'\<close> in \<open>[0,3]\<close>, writing \<open>v\<close> at offset \<open>d\<close> leaves the value
  decoded at offset \<open>d'\<close> as it was.
\<close>

theorem dimension_isolation:
  assumes "0 \<le> sint d" and "sint d \<le> 3" and "0 \<le> sint d'" and "sint d' \<le> 3"
    and "d \<noteq> d'"
  shows "\<exists>r. lookupVal k d' = Some r \<and> setVal k v d \<bind> (\<lambda>k'. lookupVal k' d') = Some r"
proof -
  from assms(1,2) obtain n where n: "n \<le> 3" and d: "d = of_nat n"
    by (rule offset_cases)
  from assms(3,4) obtain n' where n': "n' \<le> 3" and d': "d' = of_nat n'"
    by (rule offset_cases)
  from assms(5) have "n \<noteq> n'"
    unfolding d d' by auto
  then have "setVal k v d \<bind> (\<lambda>k'. lookupVal k' d') = lookupVal k d'"
    unfolding d d' by (rule lookupVal_setVal_other [OF n n'])
  moreover obtain r where "lookupVal k d' = Some r"
    unfolding d' by (rule lookupVal_bits [OF n'])
  ultimately show ?thesis
    by simp
qed

theorem dimension_isolation_witness:
  "\<exists>r. lookupVal 12345 2 = Some r \<and> setVal 12345 777 3 \<bind> (\<lambda>k'. lookupVal k' 2) = Some r"
  using dimension_isolation [of 3 2 12345 777] by simp

text \<open>
  Claim C6 (silent truncation). For every key \<open>k\<close>, every offset \<open>d\<close> in \<open>[0,3]\<close> and
  every value \<open>v \<ge> 2^16\<close>, writing \<open>v\<close> at offset \<open>d\<close> and reading it back succeeds
  without a panic and yields \<open>v mod 2^16\<close>; the witness is \<open>70000\<close>, read back as
  \<open>4464\<close>.
\<close>

theorem oversized_value_truncated:
  assumes "0 \<le> sint d" and "sint d \<le> 3" and "2 ^ 16 \<le> unat v"
  shows "\<exists>r. setVal k v d \<bind> (\<lambda>k'. lookupVal k' d) = Some r \<and> unat r = unat v mod 2 ^ 16"
proof -
  from assms(1,2) obtain n where n: "n \<le> 3" and d: "d = of_nat n"
    by (rule offset_cases)
  show ?thesis
    unfolding d lookupVal_setVal_same [OF n] using unat_take_bit_16 [of v] by blast
qed

theorem oversized_value_truncated_witness:
  "\<exists>r. setVal 0 70000 2 \<bind> (\<lambda>k'. lookupVal k' 2) = Some r \<and> unat r = 4464"
  using oversized_value_truncated [of 2 70000 0] by simp

text \<open>
  Claim C9 (get then set). For every key \<open>k\<close> and every offset \<open>d\<close> in \<open>[0,3]\<close>,
  writing the value decoded at offset \<open>d\<close> back at the same offset returns \<open>k\<close>
  unchanged.
\<close>

theorem setVal_of_lookupVal:
  assumes "0 \<le> sint d" and "sint d \<le> 3"
  shows "lookupVal k d \<bind> (\<lambda>v. setVal k v d) = Some k"
proof -
  from assms obtain n where n: "n \<le> 3" and d: "d = of_nat n"
    by (rule offset_cases)
  show ?thesis
    unfolding d by (rule setVal_lookupVal_same [OF n])
qed

theorem setVal_of_lookupVal_witness:
  "lookupVal 81985529216486895 1 \<bind> (\<lambda>v. setVal 81985529216486895 v 1) = Some 81985529216486895"
  using setVal_of_lookupVal [of 1 81985529216486895] by simp

lemma lookupVal_fits:
  assumes "n \<le> 3"
  shows "\<exists>r. lookupVal k (of_nat n) = Some r \<and> unat r \<le> maxDimVal"
proof -
  obtain r where r: "lookupVal k (of_nat n) = Some r"
    by (rule lookupVal_bits [OF assms])
  from lookupVal_bound [OF assms r] have "unat r \<le> maxDimVal"
    by (simp add: maxDimVal_def)
  with r show ?thesis
    by simp
qed

text \<open>
  Claim C10 (decoded range). For every key \<open>k\<close> and every offset \<open>d\<close> in \<open>[0,3]\<close>,
  \<open>lookupVal\<close> returns a value of at most \<open>2^16 - 1\<close>, and so does each of the
  accessors \<open>X0\<close>, \<open>X1\<close>, \<open>Y0\<close>, \<open>Y1\<close> on every \<open>RectHash\<close>.
\<close>

theorem decoded_field_fits:
  assumes "0 \<le> sint d" and "sint d \<le> 3"
  shows "(\<exists>r. lookupVal k d = Some r \<and> unat r \<le> maxDimVal)
    \<and> (\<exists>r. X0 rh = Some r \<and> unat r \<le> maxDimVal)
    \<and> (\<exists>r. X1 rh = Some r \<and> unat r \<le> maxDimVal)
    \<and> (\<exists>r. Y0 rh = Some r \<and> unat r \<le> maxDimVal)
    \<and> (\<exists>r. Y1 rh = Some r \<and> unat r \<le> maxDimVal)"
proof -
  from assms obtain n where n: "n \<le> 3" and d: "d = of_nat n"
    by (rule offset_cases)
  have "\<exists>r. lookupVal k d = Some r \<and> unat r \<le> maxDimVal"
    unfolding d by (rule lookupVal_fits [OF n])
  moreover have "\<exists>r. X0 rh = Some r \<and> unat r \<le> maxDimVal"
    unfolding X0_def accessor_offsets by (rule lookupVal_fits) simp
  moreover have "\<exists>r. X1 rh = Some r \<and> unat r \<le> maxDimVal"
    unfolding X1_def accessor_offsets by (rule lookupVal_fits) simp
  moreover have "\<exists>r. Y0 rh = Some r \<and> unat r \<le> maxDimVal"
    unfolding Y0_def accessor_offsets by (rule lookupVal_fits) simp
  moreover have "\<exists>r. Y1 rh = Some r \<and> unat r \<le> maxDimVal"
    unfolding Y1_def accessor_offsets by (rule lookupVal_fits) simp
  ultimately show ?thesis
    by blast
qed

theorem decoded_field_fits_witness:
  "(\<exists>r. lookupVal (- 1) 3 = Some r \<and> unat r \<le> maxDimVal)
    \<and> (\<exists>r. X0 \<lparr>Val = - 1\<rparr> = Some r \<and> unat r \<le> maxDimVal)
    \<and> (\<exists>r. X1 \<lparr>Val = - 1\<rparr> = Some r \<and> unat r \<le> maxDimVal)
    \<and> (\<exists>r. Y0 \<lparr>Val = - 1\<rparr> = Some r \<and> unat r \<le> maxDimVal)
    \<and> (\<exists>r. Y1 \<lparr>Val = - 1\<rparr> = Some r \<and> unat r \<le> maxDimVal)"
  using decoded_field_fits [of 3 "- 1" "\<lparr>Val = - 1\<rparr>"] by simp

lemma clear_low_bits:
  fixes v :: "64 word"
  shows "bit (push_bit m (drop_bit m v)) j \<longleftrightarrow> m \<le> j \<and> bit v j"
proof (cases "m \<le> j")
  case True
  then show ?thesis
    using bit_imp_le_length [of v j]
    by (auto simp add: bit_push_bit_iff bit_drop_bit_eq possible_bit_word)
next
  case False
  then show ?thesis
    by (simp add: bit_push_bit_iff)
qed

lemma minRectVal_bits:
  "bit (minRectVal k p) j \<longleftrightarrow> truncBits p \<le> j \<and> bit k j"
  unfolding minRectVal_def by (rule clear_low_bits)

lemma lookupVal_minRectVal:
  assumes "n \<le> 3" and "p \<le> 16"
  obtains v where "lookupVal k (of_nat n) = Some v"
    and "lookupVal (minRectVal k p) (of_nat n) = Some (push_bit (16 - p) (drop_bit (16 - p) v))"
proof -
  from lookupVal_bits [OF assms(1), of k] obtain v where
    v: "lookupVal k (of_nat n) = Some v"
    and v_bits: "\<And>j. bit v j \<longleftrightarrow> j < 16 \<and> bit k (4 * j + n)"
    by blast
  from lookupVal_bits [OF assms(1), of "minRectVal k p"] obtain r where
    r: "lookupVal (minRectVal k p) (of_nat n) = Some r"
    and r_bits: "\<And>j. bit r j \<longleftrightarrow> j < 16 \<and> bit (minRectVal k p) (4 * j + n)"
    by blast
  have "bit r j \<longleftrightarrow> bit (push_bit (16 - p) (drop_bit (16 - p) v)) j" for j
  proof -
    have "truncBits p \<le> 4 * j + n \<longleftrightarrow> 16 - p \<le> j"
      using assms by (simp add: truncBits_def maxDimBits_def) linarith
    then show ?thesis
      unfolding r_bits minRectVal_bits clear_low_bits v_bits by auto
  qed
  then have "r = push_bit (16 - p) (drop_bit (16 - p) v)"
    by (simp add: bit_eq_iff)
  with v r that show thesis
    by simp
qed

text \<open>
  Claim C2 (truncation per dimension). For every key \<open>k\<close>, every precision \<open>p\<close> in
  \<open>[0,16]\<close> and every offset \<open>d\<close> in \<open>[0,3]\<close>, decoding offset \<open>d\<close> of the truncated
  key \<open>(k >> t) << t\<close> with \<open>t = (16 - p) * 4\<close> gives the value decoded from \<open>k\<close> at
  offset \<open>d\<close> with its low \<open>16 - p\<close> bits cleared.
\<close>

theorem truncation_per_dimension:
  assumes "p \<le> 16" and "0 \<le> sint d" and "sint d \<le> 3"
  shows "\<exists>v. lookupVal k d = Some v \<and>
           lookupVal (minRectVal k p) d = Some (push_bit (16 - p) (drop_bit (16 - p) v))"
proof -
  from assms(2,3) obtain n where n: "n \<le> 3" and d: "d = of_nat n"
    by (rule offset_cases)
  show ?thesis
    unfolding d using lookupVal_minRectVal [OF n assms(1), of k] by blast
qed

theorem truncation_per_dimension_witness:
  "\<exists>v. lookupVal 9838263505978427528 3 = Some v \<and>
     lookupVal (minRectVal 9838263505978427528 4) 3 = Some (push_bit 12 (drop_bit 12 v))"
  using truncation_per_dimension [of 4 3 9838263505978427528] by simp

section \<open>The fields of the span rectangles\<close>

lemma setVal_fields:
  assumes "n \<le> 3"
  obtains k' where "setVal k v (of_nat n) = Some k'"
    and "lookupVal k' (of_nat n) = Some (take_bit 16 v)"
    and "\<And>n'. n' \<le> 3 \<Longrightarrow> n' \<noteq> n \<Longrightarrow> lookupVal k' (of_nat n') = lookupVal k (of_nat n')"
proof -
  obtain k' where k': "setVal k v (of_nat n) = Some k'"
    by (rule setVal_bits [OF assms])
  have "lookupVal k' (of_nat n) = Some (take_bit 16 v)"
    using lookupVal_setVal_same [OF assms, of k v] by (simp add: k')
  moreover have "lookupVal k' (of_nat n') = lookupVal k (of_nat n')" if "n' \<le> 3" "n' \<noteq> n" for n'
    using lookupVal_setVal_other [OF assms that(1), of k v] that(2) by (simp add: k')
  ultimately show thesis
    using that k' by blast
qed

lemma SetX0_fields:
  obtains r' where "SetX0 r v = Some r'" and "X0 r' = Some (take_bit 16 v)"
    and "X1 r' = X1 r" and "Y0 r' = Y0 r" and "Y1 r' = Y1 r"
proof -
  from setVal_fields [of 3 "Val r" v] obtain k' where
    k': "setVal (Val r) v (of_nat 3) = Some k'"
    and same: "lookupVal k' (of_nat 3) = Some (take_bit 16 v)"
    and other: "\<And>n'. n' \<le> 3 \<Longrightarrow> n' \<noteq> 3 \<Longrightarrow> lookupVal k' (of_nat n') = lookupVal (Val r) (of_nat n')"
    by auto
  have "SetX0 r v = Some (r\<lparr>Val := k'\<rparr>)"
    using k' by (simp add: SetX0_def)
  moreover have "X0 (r\<lparr>Val := k'\<rparr>) = Some (take_bit 16 v)"
    using same by (simp add: X0_def)
  moreover have "X1 (r\<lparr>Val := k'\<rparr>) = X1 r"
    using other [of 2] by (simp add: X1_def)
  moreover have "Y0 (r\<lparr>Val := k'\<rparr>) = Y0 r"
    using other [of 1] by (simp add: Y0_def)
  moreover have "Y1 (r\<lparr>Val := k'\<rparr>) = Y1 r"
    using other [of 0] by (simp add: Y1_def)
  ultimately show thesis
    using that by blast
qed

lemma SetX1_fields:
  obtains r' where "SetX1 r v = Some r'" and "X1 r' = Some (take_bit 16 v)"
    and "X0 r' = X0 r" and "Y0 r' = Y0 r" and "Y1 r' = Y1 r"
proof -
  from setVal_fields [of 2 "Val r" v] obtain k' where
    k': "setVal (Val r) v (of_nat 2) = Some k'"
    and same: "lookupVal k' (of_nat 2) = Some (take_bit 16 v)"
    and other: "\<And>n'. n' \<le> 3 \<Longrightarrow> n' \<noteq> 2 \<Longrightarrow> lookupVal k' (of_nat n') = lookupVal (Val r) (of_nat n')"
    by auto
  have "SetX1 r v = Some (r\<lparr>Val := k'\<rparr>)"
    using k' by (simp add: SetX1_def)
  moreover have "X1 (r\<lparr>Val := k'\<rparr>) = Some (take_bit 16 v)"
    using same by (simp add: X1_def)
  moreover have "X0 (r\<lparr>Val := k'\<rparr>) = X0 r"
    using other [of 3] by (simp add: X0_def)
  moreover have "Y0 (r\<lparr>Val := k'\<rparr>) = Y0 r"
    using other [of 1] by (simp add: Y0_def)
  moreover have "Y1 (r\<lparr>Val := k'\<rparr>) = Y1 r"
    using other [of 0] by (simp add: Y1_def)
  ultimately show thesis
    using that by blast
qed

lemma SetY0_fields:
  obtains r' where "SetY0 r v = Some r'" and "Y0 r' = Some (take_bit 16 v)"
    and "X0 r' = X0 r" and "X1 r' = X1 r" and "Y1 r' = Y1 r"
proof -
  from setVal_fields [of 1 "Val r" v] obtain k' where
    k': "setVal (Val r) v (of_nat 1) = Some k'"
    and same: "lookupVal k' (of_nat 1) = Some (take_bit 16 v)"
    and other: "\<And>n'. n' \<le> 3 \<Longrightarrow> n' \<noteq> 1 \<Longrightarrow> lookupVal k' (of_nat n') = lookupVal (Val r) (of_nat n')"
    by auto
  have "SetY0 r v = Some (r\<lparr>Val := k'\<rparr>)"
    using k' by (simp add: SetY0_def)
  moreover have "Y0 (r\<lparr>Val := k'\<rparr>) = Some (take_bit 16 v)"
    using same by (simp add: Y0_def)
  moreover have "X0 (r\<lparr>Val := k'\<rparr>) = X0 r"
    using other [of 3] by (simp add: X0_def)
  moreover have "X1 (r\<lparr>Val := k'\<rparr>) = X1 r"
    using other [of 2] by (simp add: X1_def)
  moreover have "Y1 (r\<lparr>Val := k'\<rparr>) = Y1 r"
    using other [of 0] by (simp add: Y1_def)
  ultimately show thesis
    using that by blast
qed

lemma SetY1_fields:
  obtains r' where "SetY1 r v = Some r'" and "Y1 r' = Some (take_bit 16 v)"
    and "X0 r' = X0 r" and "X1 r' = X1 r" and "Y0 r' = Y0 r"
proof -
  from setVal_fields [of 0 "Val r" v] obtain k' where
    k': "setVal (Val r) v (of_nat 0) = Some k'"
    and same: "lookupVal k' (of_nat 0) = Some (take_bit 16 v)"
    and other: "\<And>n'. n' \<le> 3 \<Longrightarrow> n' \<noteq> 0 \<Longrightarrow> lookupVal k' (of_nat n') = lookupVal (Val r) (of_nat n')"
    by auto
  have "SetY1 r v = Some (r\<lparr>Val := k'\<rparr>)"
    using k' by (simp add: SetY1_def)
  moreover have "Y1 (r\<lparr>Val := k'\<rparr>) = Some (take_bit 16 v)"
    using same by (simp add: Y1_def)
  moreover have "X0 (r\<lparr>Val := k'\<rparr>) = X0 r"
    using other [of 3] by (simp add: X0_def)
  moreover have "X1 (r\<lparr>Val := k'\<rparr>) = X1 r"
    using other [of 2] by (simp add: X1_def)
  moreover have "Y0 (r\<lparr>Val := k'\<rparr>) = Y0 r"
    using other [of 1] by (simp add: Y0_def)
  ultimately show thesis
    using that by blast
qed

lemma minSpanRect_fields:
  assumes "X0 mr = Some a" and "X1 mr = Some b" and "Y0 mr = Some c" and "Y1 mr = Some e"
  obtains ms where "minSpanRect mr p = Some ms"
    and "X0 ms = Some (take_bit 16 (a + of_nat (inc p)))"
    and "X1 ms = Some (take_bit 16 b)"
    and "Y0 ms = Some (take_bit 16 (c + of_nat (inc p)))"
    and "Y1 ms = Some (take_bit 16 e)"
proof -
  obtain r1 where r1: "SetX0 \<lparr>Val = 0\<rparr> (a + of_nat (inc p)) = Some r1"
    and r1_x0: "X0 r1 = Some (take_bit 16 (a + of_nat (inc p)))"
    by (rule SetX0_fields)
  obtain r2 where r2: "SetY0 r1 (c + of_nat (inc p)) = Some r2"
    and r2_y0: "Y0 r2 = Some (take_bit 16 (c + of_nat (inc p)))"
    and r2_x0: "X0 r2 = X0 r1"
    by (rule SetY0_fields)
  obtain r3 where r3: "SetX1 r2 b = Some r3"
    and r3_x1: "X1 r3 = Some (take_bit 16 b)"
    and r3_x0: "X0 r3 = X0 r2" and r3_y0: "Y0 r3 = Y0 r2"
    by (rule SetX1_fields)
  obtain r4 where r4: "SetY1 r3 e = Some r4"
    and r4_y1: "Y1 r4 = Some (take_bit 16 e)"
    and r4_x0: "X0 r4 = X0 r3" and r4_x1: "X1 r4 = X1 r3" and r4_y0: "Y0 r4 = Y0 r3"
    by (rule SetY1_fields)
  have "minSpanRect mr p = Some r4"
    unfolding minSpanRect_def by (simp add: assms r1 r2 r3 r4)
  moreover have "X0 r4 = Some (take_bit 16 (a + of_nat (inc p)))"
    by (simp only: r4_x0 r3_x0 r2_x0 r1_x0)
  moreover have "X1 r4 = Some (take_bit 16 b)"
    by (simp only: r4_x1 r3_x1)
  moreover have "Y0 r4 = Some (take_bit 16 (c + of_nat (inc p)))"
    by (simp only: r4_y0 r3_y0 r2_y0)
  ultimately show thesis
    using that r4_y1 by blast
qed

lemma maxSpanRect_fields:
  assumes "X0 mr = Some a" and "X1 mr = Some b" and "Y0 mr = Some c" and "Y1 mr = Some e"
  obtains ms where "maxSpanRect mr p = Some ms"
    and "X0 ms = Some (take_bit 16 a)"
    and "X1 ms = Some (take_bit 16 (b + of_nat (inc p)))"
    and "Y0 ms = Some (take_bit 16 c)"
    and "Y1 ms = Some (take_bit 16 (e + of_nat (inc p)))"
proof -
  obtain r1 where r1: "SetX0 \<lparr>Val = 0\<rparr> a = Some r1"
    and r1_x0: "X0 r1 = Some (take_bit 16 a)"
    by (rule SetX0_fields)
  obtain r2 where r2: "SetY0 r1 c = Some r2"
    and r2_y0: "Y0 r2 = Some (take_bit 16 c)"
    and r2_x0: "X0 r2 = X0 r1"
    by (rule SetY0_fields)
  obtain r3 where r3: "SetX1 r2 (b + of_nat (inc p)) = Some r3"
    and r3_x1: "X1 r3 = Some (take_bit 16 (b + of_nat (inc p)))"
    and r3_x0: "X0 r3 = X0 r2" and r3_y0: "Y0 r3 = Y0 r2"
    by (rule SetX1_fields)
  obtain r4 where r4: "SetY1 r3 (e + of_nat (inc p)) = Some r4"
    and r4_y1: "Y1 r4 = Some (take_bit 16 (e + of_nat (inc p)))"
    and r4_x0: "X0 r4 = X0 r3" and r4_x1: "X1 r4 = X1 r3" and r4_y0: "Y0 r4 = Y0 r3"
    by (rule SetY1_fields)
  have "maxSpanRect mr p = Some r4"
    unfolding maxSpanRect_def by (simp add: assms r1 r2 r3 r4)
  moreover have "X0 r4 = Some (take_bit 16 a)"
    by (simp only: r4_x0 r3_x0 r2_x0 r1_x0)
  moreover have "X1 r4 = Some (take_bit 16 (b + of_nat (inc p)))"
    by (simp only: r4_x1 r3_x1)
  moreover have "Y0 r4 = Some (take_bit 16 c)"
    by (simp only: r4_y0 r3_y0 r2_y0)
  ultimately show thesis
    using that r4_y1 by blast
qed

section \<open>Arithmetic of a truncated field\<close>

lemma unat_clear_low:
  fixes v :: "64 word"
  assumes "unat v < 2 ^ 16"
  shows "unat (push_bit m (drop_bit m v)) = unat v div 2 ^ m * 2 ^ m"
proof -
  have "unat v div 2 ^ m * 2 ^ m \<le> unat v"
    by simp
  moreover have "unat v < 2 ^ 64"
    using assms by simp
  ultimately have "unat v div 2 ^ m * 2 ^ m < 2 ^ 64"
    by (rule le_less_trans)
  then have fit: "take_bit 64 (unat v div 2 ^ m * 2 ^ m) = unat v div 2 ^ m * 2 ^ m"
    by (rule take_bit_nat_eq_self)
  have "unat (push_bit m (drop_bit m v)) = take_bit LENGTH(64) (push_bit m (drop_bit m (unat v)))"
    by (simp only: unsigned_push_bit_eq unat_drop_bit_eq)
  also have "\<dots> = take_bit 64 (unat v div 2 ^ m * 2 ^ m)"
    by (simp add: push_bit_eq_mult drop_bit_eq_div)
  finally show ?thesis
    by (simp only: fit)
qed

lemma unat_add_inc:
  fixes t :: "64 word"
  assumes "unat t < 2 ^ 16" and "i \<le> 2 ^ 16"
  shows "unat (take_bit 16 (t + of_nat i)) = (unat t + i) mod 2 ^ 16"
proof -
  have "unat t + i < 2 ^ 64"
    using assms by simp
  then have "unat (t + of_nat i) = unat t + i"
    by (simp add: unat_word_ariths unat_of_nat take_bit_nat_eq_self)
  then show ?thesis
    unfolding unsigned_take_bit_eq by (simp add: take_bit_eq_mod)
qed

lemma inc_le: "inc p \<le> 2 ^ 16"
  unfolding inc_def maxDimBits_def by (rule power_increasing) simp_all

lemma trunc_field:
  assumes "n \<le> 3" and "p \<le> 16"
  obtains v t where "lookupVal k (of_nat n) = Some v"
    and "lookupVal (minRectVal k p) (of_nat n) = Some t"
    and "unat v < 2 ^ 16" and "unat t = unat v div inc p * inc p"
proof -
  from lookupVal_minRectVal [OF assms, of k] obtain v where
    v: "lookupVal k (of_nat n) = Some v"
    and t: "lookupVal (minRectVal k p) (of_nat n) = Some (push_bit (16 - p) (drop_bit (16 - p) v))"
    by blast
  have bound: "unat v < 2 ^ 16"
    by (rule lookupVal_bound [OF assms(1) v])
  have "unat (push_bit (16 - p) (drop_bit (16 - p) v)) = unat v div inc p * inc p"
    unfolding inc_def maxDimBits_def by (rule unat_clear_low [OF bound])
  with v t bound that show thesis
    by blast
qed

text \<open>
  A field \<open>x\<close> truncated to precision \<open>p\<close> is \<open>x div inc p * inc p\<close>; one more step
  stays within \<open>2^16\<close>.
\<close>

lemma trunc_step_bounds:
  fixes x :: nat
  assumes "x < 2 ^ 16" and "p \<le> 16"
  shows "x div inc p * inc p \<le> x" and "x < x div inc p * inc p + inc p"
    and "x div inc p * inc p + inc p \<le> 2 ^ 16"
proof -
  have pos: "0 < inc p"
    by (simp add: inc_def)
  show "x div inc p * inc p \<le> x"
    by simp
  show "x < x div inc p * inc p + inc p"
    using pos by (metis add.commute div_mult_mod_eq mod_less_divisor mult.commute nat_add_left_cancel_less)
  have prod: "2 ^ p * inc p = (2 :: nat) ^ 16"
    using assms(2) by (simp add: inc_def maxDimBits_def flip: power_add)
  have "x div inc p < 2 ^ p"
  proof (rule ccontr)
    assume "\<not> x div inc p < 2 ^ p"
    then have "2 ^ p * inc p \<le> x div inc p * inc p"
      by simp
    also have "\<dots> \<le> x"
      by simp
    finally show False
      using assms(1) prod by simp
  qed
  then have "(x div inc p + 1) * inc p \<le> 2 ^ p * inc p"
    by (intro mult_le_mono1) simp
  then show "x div inc p * inc p + inc p \<le> 2 ^ 16"
    unfolding prod by (simp add: algebra_simps)
qed

text \<open>The equations that evaluate the codec and the span computation on numerals.\<close>

lemmas codec_eval =
  lookupVal_def lookupVal_loop.simps setVal_def clearMask_loop.simps setBits_loop.simps
  shl1_def maxDimBits_def maxDimVal_def
  X0_def X1_def Y0_def Y1_def SetX0_def SetX1_def SetY0_def SetY1_def
  inc_def truncBits_def minRectVal_def minRect_def minSpanRect_def maxSpanRect_def

lemma inc_eq_full: "p \<le> 16 \<Longrightarrow> inc p = 2 ^ 16 \<longleftrightarrow> p = 0"
proof -
  assume "p \<le> 16"
  have "(2 :: nat) ^ (16 - p) = 2 ^ 16 \<longleftrightarrow> 16 - p = 16"
    by (rule power_inject_exp) simp
  moreover have "16 - p = 16 \<longleftrightarrow> p = 0"
    using \<open>p \<le> 16\<close> by linarith
  ultimately show ?thesis
    by (simp add: inc_def maxDimBits_def)
qed

lemma wrap_ge_iff:
  fixes x :: nat
  assumes "x < 2 ^ 16" and "p \<le> 16" and "t = x div inc p * inc p"
  shows "t \<le> (t + inc p) mod 2 ^ 16 \<longleftrightarrow> t + inc p \<le> maxDimVal \<or> p = 0"
proof (cases "t + inc p < 2 ^ 16")
  case True
  then have "(t + inc p) mod 2 ^ 16 = t + inc p"
    by simp
  with True show ?thesis
    by (simp add: maxDimVal_def)
next
  case False
  with trunc_step_bounds(3) [OF assms(1,2)] assms(3) have full: "t + inc p = 2 ^ 16"
    by simp
  then have "(t + inc p) mod 2 ^ 16 = 0"
    by simp
  moreover have "t = 0 \<longleftrightarrow> p = 0"
    using full inc_eq_full [OF assms(2)] by auto
  moreover have "\<not> t + inc p \<le> maxDimVal"
    using full by (simp add: maxDimVal_def)
  ultimately show ?thesis
    by simp
qed

lemma X0_trunc:
  assumes "p \<le> 16"
  obtains v t where "X0 rect = Some v" and "X0 (minRect rect p) = Some t"
    and "unat v < 2 ^ 16" and "unat t = unat v div inc p * inc p"
  using trunc_field [of 3 p "Val rect"] assms unfolding X0_def minRect_def by simp blast

lemma X1_trunc:
  assumes "p \<le> 16"
  obtains v t where "X1 rect = Some v" and "X1 (minRect rect p) = Some t"
    and "unat v < 2 ^ 16" and "unat t = unat v div inc p * inc p"
  using trunc_field [of 2 p "Val rect"] assms unfolding X1_def minRect_def by simp blast

lemma Y0_trunc:
  assumes "p \<le> 16"
  obtains v t where "Y0 rect = Some v" and "Y0 (minRect rect p) = Some t"
    and "unat v < 2 ^ 16" and "unat t = unat v div inc p * inc p"
  using trunc_field [of 1 p "Val rect"] assms unfolding Y0_def minRect_def by simp blast

lemma Y1_trunc:
  assumes "p \<le> 16"
  obtains v t where "Y1 rect = Some v" and "Y1 (minRect rect p) = Some t"
    and "unat v < 2 ^ 16" and "unat t = unat v div inc p * inc p"
  using trunc_field [of 0 p "Val rect"] assms unfolding Y1_def minRect_def by simp blast

lemma trunc_lt:
  fixes v t :: go_uint
  assumes "unat v < 2 ^ 16" and "unat t = unat v div inc p * inc p"
  shows "unat t < 2 ^ 16"
proof -
  have "unat t \<le> unat v"
    unfolding assms(2) by simp
  then show ?thesis
    using assms(1) by (rule le_less_trans)
qed

lemma stepped_ge_iff:
  fixes v t :: go_uint
  assumes "p \<le> 16" and "unat v < 2 ^ 16" and "unat t = unat v div inc p * inc p"
  shows "t \<le> take_bit 16 (t + of_nat (inc p)) \<longleftrightarrow> unat t + inc p \<le> maxDimVal \<or> p = 0"
  unfolding word_le_nat_alt unat_add_inc [OF trunc_lt [OF assms(2,3)] inc_le]
  by (rule wrap_ge_iff [OF assms(2,1,3)])

section \<open>Claims about the span computation\<close>

text \<open>
  Claim C3 (containment), as amended. For every rectangle and every precision \<open>p\<close> in
  \<open>[0,16]\<close> both span rectangles are computed without a panic. On each of the four
  fields concerned (\<open>x0\<close> and \<open>y0\<close> of the minimum span, \<open>x1\<close> and \<open>y1\<close> of the maximum
  span) the span's field is at least the truncated key's field exactly when the
  truncated field plus the step \<open>2^(16 - p)\<close> is at most \<open>2^16 - 1\<close>, or \<open>p = 0\<close>. In the
  remaining case the sum is \<open>2^16\<close>, which \<open>setVal\<close> stores as \<open>0\<close>.
\<close>

theorem span_containment:
  assumes "p \<le> 16"
  shows "\<exists>mn mx tx0 tx1 ty0 ty1 a b c e.
      minSpanRect (minRect rect p) p = Some mn \<and> maxSpanRect (minRect rect p) p = Some mx
    \<and> X0 (minRect rect p) = Some tx0 \<and> X0 mn = Some a
    \<and> X1 (minRect rect p) = Some tx1 \<and> X1 mx = Some b
    \<and> Y0 (minRect rect p) = Some ty0 \<and> Y0 mn = Some c
    \<and> Y1 (minRect rect p) = Some ty1 \<and> Y1 mx = Some e
    \<and> (tx0 \<le> a \<longleftrightarrow> unat tx0 + inc p \<le> maxDimVal \<or> p = 0)
    \<and> (tx1 \<le> b \<longleftrightarrow> unat tx1 + inc p \<le> maxDimVal \<or> p = 0)
    \<and> (ty0 \<le> c \<longleftrightarrow> unat ty0 + inc p \<le> maxDimVal \<or> p = 0)
    \<and> (ty1 \<le> e \<longleftrightarrow> unat ty1 + inc p \<le> maxDimVal \<or> p = 0)"
proof -
  obtain x0 tx0 :: go_uint where tx0: "X0 (minRect rect p) = Some tx0"
    and x0: "unat x0 < 2 ^ 16" "unat tx0 = unat x0 div inc p * inc p"
    using X0_trunc [OF assms, of rect] by blast
  obtain x1 tx1 :: go_uint where tx1: "X1 (minRect rect p) = Some tx1"
    and x1: "unat x1 < 2 ^ 16" "unat tx1 = unat x1 div inc p * inc p"
    using X1_trunc [OF assms, of rect] by blast
  obtain y0 ty0 :: go_uint where ty0: "Y0 (minRect rect p) = Some ty0"
    and y0: "unat y0 < 2 ^ 16" "unat ty0 = unat y0 div inc p * inc p"
    using Y0_trunc [OF assms, of rect] by blast
  obtain y1 ty1 :: go_uint where ty1: "Y1 (minRect rect p) = Some ty1"
    and y1: "unat y1 < 2 ^ 16" "unat ty1 = unat y1 div inc p * inc p"
    using Y1_trunc [OF assms, of rect] by blast
  obtain mn where mn: "minSpanRect (minRect rect p) p = Some mn"
    and mn_x0: "X0 mn = Some (take_bit 16 (tx0 + of_nat (inc p)))"
    and mn_y0: "Y0 mn = Some (take_bit 16 (ty0 + of_nat (inc p)))"
    using minSpanRect_fields [OF tx0 tx1 ty0 ty1, where p = p] by blast
  obtain mx where mx: "maxSpanRect (minRect rect p) p = Some mx"
    and mx_x1: "X1 mx = Some (take_bit 16 (tx1 + of_nat (inc p)))"
    and mx_y1: "Y1 mx = Some (take_bit 16 (ty1 + of_nat (inc p)))"
    using maxSpanRect_fields [OF tx0 tx1 ty0 ty1, where p = p] by blast
  note ge = stepped_ge_iff [OF assms x0] stepped_ge_iff [OF assms x1]
    stepped_ge_iff [OF assms y0] stepped_ge_iff [OF assms y1]
  from mn mx tx0 mn_x0 tx1 mx_x1 ty0 mn_y0 ty1 mx_y1 ge show ?thesis
    by blast
qed

theorem span_containment_witness:
  "\<exists>mn mx tx0 tx1 ty0 ty1 a b c e.
      minSpanRect (minRect \<lparr>Val = 81985529216486895\<rparr> 4) 4 = Some mn
    \<and> maxSpanRect (minRect \<lparr>Val = 81985529216486895\<rparr> 4) 4 = Some mx
    \<and> X0 (minRect \<lparr>Val = 81985529216486895\<rparr> 4) = Some tx0 \<and> X0 mn = Some a
    \<and> X1 (minRect \<lparr>Val = 81985529216486895\<rparr> 4) = Some tx1 \<and> X1 mx = Some b
    \<and> Y0 (minRect \<lparr>Val = 81985529216486895\<rparr> 4) = Some ty0 \<and> Y0 mn = Some c
    \<and> Y1 (minRect \<lparr>Val = 81985529216486895\<rparr> 4) = Some ty1 \<and> Y1 mx = Some e
    \<and> (tx0 \<le> a \<longleftrightarrow> unat tx0 + inc 4 \<le> maxDimVal \<or> (4 :: nat) = 0)
    \<and> (tx1 \<le> b \<longleftrightarrow> unat tx1 + inc 4 \<le> maxDimVal \<or> (4 :: nat) = 0)
    \<and> (ty0 \<le> c \<longleftrightarrow> unat ty0 + inc 4 \<le> maxDimVal \<or> (4 :: nat) = 0)
    \<and> (ty1 \<le> e \<longleftrightarrow> unat ty1 + inc 4 \<le> maxDimVal \<or> (4 :: nat) = 0)"
  by (rule span_containment) simp

text \<open>
  The claim as stated fails: with \<open>x0 = 65535\<close> and precision 4 the truncated \<open>x0\<close> is
  \<open>61440\<close>, and the minimum span rectangle's \<open>x0\<close> is \<open>(61440 + 4096) mod 2^16 = 0\<close>.
\<close>

theorem span_containment_counterexample:
  "minSpanRect (minRect \<lparr>Val = 9838263505978427528\<rparr> 4) 4 = Some \<lparr>Val = 562949953421312\<rparr>
   \<and> X0 (minRect \<lparr>Val = 9838263505978427528\<rparr> 4) = Some 61440
   \<and> X0 \<lparr>Val = 562949953421312\<rparr> = Some 0
   \<and> \<not> (61440 :: go_uint) \<le> 0"
  by (simp add: codec_eval)

lemma take_bit_16_small:
  fixes t :: go_uint
  assumes "unat t < 2 ^ 16"
  shows "take_bit 16 t = t"
  by (rule take_bit_16_id) (use assms in \<open>simp add: maxDimVal_def\<close>)

lemma between_trunc:
  fixes v t :: go_uint
  assumes "p \<le> 16" and "unat v < 2 ^ 16" and "unat t = unat v div inc p * inc p"
  shows "take_bit 16 t \<le> v"
    and "v \<le> take_bit 16 (t + of_nat (inc p)) \<longleftrightarrow> unat t + inc p \<le> maxDimVal \<or> v = 0"
proof -
  have t: "unat t < 2 ^ 16"
    by (rule trunc_lt [OF assms(2,3)])
  have lower: "unat t \<le> unat v"
    unfolding assms(3) by (rule trunc_step_bounds(1) [OF assms(2,1)])
  have upper: "unat v < unat t + inc p"
    unfolding assms(3) by (rule trunc_step_bounds(2) [OF assms(2,1)])
  have full: "unat t + inc p \<le> 2 ^ 16"
    unfolding assms(3) by (rule trunc_step_bounds(3) [OF assms(2,1)])
  show "take_bit 16 t \<le> v"
    unfolding word_le_nat_alt take_bit_16_small [OF t] by (rule lower)
  have zero: "unat v = 0 \<longleftrightarrow> v = 0"
    by (simp add: unsigned_eq_0_iff)
  have "unat v \<le> (unat t + inc p) mod 2 ^ 16 \<longleftrightarrow> unat t + inc p \<le> maxDimVal \<or> v = 0"
  proof (cases "unat t + inc p < 2 ^ 16")
    case True
    then have "(unat t + inc p) mod 2 ^ 16 = unat t + inc p"
      by simp
    moreover have "unat t + inc p \<le> maxDimVal"
      using True by (simp add: maxDimVal_def)
    ultimately show ?thesis
      using upper by simp
  next
    case False
    with full have eq: "unat t + inc p = 2 ^ 16"
      by simp
    then have "(unat t + inc p) mod 2 ^ 16 = 0"
      by simp
    moreover have "\<not> unat t + inc p \<le> maxDimVal"
      using eq by (simp add: maxDimVal_def)
    ultimately show ?thesis
      using zero by simp
  qed
  then show "v \<le> take_bit 16 (t + of_nat (inc p)) \<longleftrightarrow> unat t + inc p \<le> maxDimVal \<or> v = 0"
    unfolding word_le_nat_alt unat_add_inc [OF t inc_le] .
qed

text \<open>
  Claim C4 (bracketing), as amended. Let \<open>rect\<close> and \<open>rect'\<close> have the same truncated key
  at a precision \<open>p\<close> in \<open>[0,16]\<close>. Both span rectangles of \<open>rect\<close> are computed without
  a panic. On every field the lower bound always holds: the field of \<open>rect'\<close> is at least
  the span field that is stored unstepped (the maximum span's \<open>x0\<close> and \<open>y0\<close>, the
  minimum span's \<open>x1\<close> and \<open>y1\<close>). The upper bound, against the stepped span field (the
  minimum span's \<open>x0\<close> and \<open>y0\<close>, the maximum span's \<open>x1\<close> and \<open>y1\<close>), holds exactly when
  the truncated field plus the step \<open>2^(16 - p)\<close> is at most \<open>2^16 - 1\<close>, or the field of
  \<open>rect'\<close> is \<open>0\<close>.
\<close>

theorem span_bracketing:
  assumes "p \<le> 16" and "minRectVal (Val rect') p = minRectVal (Val rect) p"
  shows "\<exists>mn mx. minSpanRect (minRect rect p) p = Some mn \<and> maxSpanRect (minRect rect p) p = Some mx
    \<and> (\<exists>t v lo hi. X0 (minRect rect p) = Some t \<and> X0 rect' = Some v
          \<and> X0 mx = Some lo \<and> X0 mn = Some hi
          \<and> lo \<le> v \<and> (v \<le> hi \<longleftrightarrow> unat t + inc p \<le> maxDimVal \<or> v = 0))
    \<and> (\<exists>t v lo hi. Y0 (minRect rect p) = Some t \<and> Y0 rect' = Some v
          \<and> Y0 mx = Some lo \<and> Y0 mn = Some hi
          \<and> lo \<le> v \<and> (v \<le> hi \<longleftrightarrow> unat t + inc p \<le> maxDimVal \<or> v = 0))
    \<and> (\<exists>t v lo hi. X1 (minRect rect p) = Some t \<and> X1 rect' = Some v
          \<and> X1 mn = Some lo \<and> X1 mx = Some hi
          \<and> lo \<le> v \<and> (v \<le> hi \<longleftrightarrow> unat t + inc p \<le> maxDimVal \<or> v = 0))
    \<and> (\<exists>t v lo hi. Y1 (minRect rect p) = Some t \<and> Y1 rect' = Some v
          \<and> Y1 mn = Some lo \<and> Y1 mx = Some hi
          \<and> lo \<le> v \<and> (v \<le> hi \<longleftrightarrow> unat t + inc p \<le> maxDimVal \<or> v = 0))"
proof -
  from assms(2) have same: "minRect rect' p = minRect rect p"
    by (simp add: minRect_def)
  obtain x0 tx0 :: go_uint where x0: "X0 rect' = Some x0" and tx0: "X0 (minRect rect p) = Some tx0"
    and x0_t: "unat x0 < 2 ^ 16" "unat tx0 = unat x0 div inc p * inc p"
    using X0_trunc [OF assms(1), of rect'] unfolding same by blast
  obtain x1 tx1 :: go_uint where x1: "X1 rect' = Some x1" and tx1: "X1 (minRect rect p) = Some tx1"
    and x1_t: "unat x1 < 2 ^ 16" "unat tx1 = unat x1 div inc p * inc p"
    using X1_trunc [OF assms(1), of rect'] unfolding same by blast
  obtain y0 ty0 :: go_uint where y0: "Y0 rect' = Some y0" and ty0: "Y0 (minRect rect p) = Some ty0"
    and y0_t: "unat y0 < 2 ^ 16" "unat ty0 = unat y0 div inc p * inc p"
    using Y0_trunc [OF assms(1), of rect'] unfolding same by blast
  obtain y1 ty1 :: go_uint where y1: "Y1 rect' = Some y1" and ty1: "Y1 (minRect rect p) = Some ty1"
    and y1_t: "unat y1 < 2 ^ 16" "unat ty1 = unat y1 div inc p * inc p"
    using Y1_trunc [OF assms(1), of rect'] unfolding same by blast
  obtain mn where mn: "minSpanRect (minRect rect p) p = Some mn"
    and mn_x0: "X0 mn = Some (take_bit 16 (tx0 + of_nat (inc p)))"
    and mn_x1: "X1 mn = Some (take_bit 16 tx1)"
    and mn_y0: "Y0 mn = Some (take_bit 16 (ty0 + of_nat (inc p)))"
    and mn_y1: "Y1 mn = Some (take_bit 16 ty1)"
    using minSpanRect_fields [OF tx0 tx1 ty0 ty1, where p = p] by blast
  obtain mx where mx: "maxSpanRect (minRect rect p) p = Some mx"
    and mx_x0: "X0 mx = Some (take_bit 16 tx0)"
    and mx_x1: "X1 mx = Some (take_bit 16 (tx1 + of_nat (inc p)))"
    and mx_y0: "Y0 mx = Some (take_bit 16 ty0)"
    and mx_y1: "Y1 mx = Some (take_bit 16 (ty1 + of_nat (inc p)))"
    using maxSpanRect_fields [OF tx0 tx1 ty0 ty1, where p = p] by blast
  have fx0: "\<exists>t v lo hi. X0 (minRect rect p) = Some t \<and> X0 rect' = Some v
          \<and> X0 mx = Some lo \<and> X0 mn = Some hi
          \<and> lo \<le> v \<and> (v \<le> hi \<longleftrightarrow> unat t + inc p \<le> maxDimVal \<or> v = 0)"
    using tx0 x0 mx_x0 mn_x0 between_trunc [OF assms(1) x0_t] by blast
  have fy0: "\<exists>t v lo hi. Y0 (minRect rect p) = Some t \<and> Y0 rect' = Some v
          \<and> Y0 mx = Some lo \<and> Y0 mn = Some hi
          \<and> lo \<le> v \<and> (v \<le> hi \<longleftrightarrow> unat t + inc p \<le> maxDimVal \<or> v = 0)"
    using ty0 y0 mx_y0 mn_y0 between_trunc [OF assms(1) y0_t] by blast
  have fx1: "\<exists>t v lo hi. X1 (minRect rect p) = Some t \<and> X1 rect' = Some v
          \<and> X1 mn = Some lo \<and> X1 mx = Some hi
          \<and> lo \<le> v \<and> (v \<le> hi \<longleftrightarrow> unat t + inc p \<le> maxDimVal \<or> v = 0)"
    using tx1 x1 mx_x1 mn_x1 between_trunc [OF assms(1) x1_t] by blast
  have fy1: "\<exists>t v lo hi. Y1 (minRect rect p) = Some t \<and> Y1 rect' = Some v
          \<and> Y1 mn = Some lo \<and> Y1 mx = Some hi
          \<and> lo \<le> v \<and> (v \<le> hi \<longleftrightarrow> unat t + inc p \<le> maxDimVal \<or> v = 0)"
    using ty1 y1 mx_y1 mn_y1 between_trunc [OF assms(1) y1_t] by blast
  from mn mx fx0 fy0 fx1 fy1 show ?thesis
    by blast
qed

theorem span_bracketing_witness:
  "minRectVal 3823335980855548185 4 = minRectVal 3823333914475194880 4
   \<and> (\<exists>mn mx. minSpanRect (minRect \<lparr>Val = 3823333914475194880\<rparr> 4) 4 = Some mn
        \<and> maxSpanRect (minRect \<lparr>Val = 3823333914475194880\<rparr> 4) 4 = Some mx
        \<and> (\<exists>v lo hi. X0 \<lparr>Val = 3823335980855548185\<rparr> = Some v
              \<and> X0 mx = Some lo \<and> X0 mn = Some hi \<and> lo \<le> v \<and> v \<le> hi)
        \<and> (\<exists>v lo hi. Y0 \<lparr>Val = 3823335980855548185\<rparr> = Some v
              \<and> Y0 mx = Some lo \<and> Y0 mn = Some hi \<and> lo \<le> v \<and> v \<le> hi)
        \<and> (\<exists>v lo hi. X1 \<lparr>Val = 3823335980855548185\<rparr> = Some v
              \<and> X1 mn = Some lo \<and> X1 mx = Some hi \<and> lo \<le> v \<and> v \<le> hi)
        \<and> (\<exists>v lo hi. Y1 \<lparr>Val = 3823335980855548185\<rparr> = Some v
              \<and> Y1 mn = Some lo \<and> Y1 mx = Some hi \<and> lo \<le> v \<and> v \<le> hi))"
proof -
  have keys: "minRectVal (Val \<lparr>Val = 3823335980855548185\<rparr>) 4
      = minRectVal (Val \<lparr>Val = 3823333914475194880\<rparr>) 4"
    by (simp add: codec_eval)
  have t: "X0 (minRect \<lparr>Val = 3823333914475194880\<rparr> 4) = Some 4096"
    "Y0 (minRect \<lparr>Val = 3823333914475194880\<rparr> 4) = Some 36864"
    "X1 (minRect \<lparr>Val = 3823333914475194880\<rparr> 4) = Some 20480"
    "Y1 (minRect \<lparr>Val = 3823333914475194880\<rparr> 4) = Some 53248"
    by (simp_all add: codec_eval)
  have fits: "unat (4096 :: go_uint) + inc 4 \<le> maxDimVal"
    "unat (36864 :: go_uint) + inc 4 \<le> maxDimVal"
    "unat (20480 :: go_uint) + inc 4 \<le> maxDimVal"
    "unat (53248 :: go_uint) + inc 4 \<le> maxDimVal"
    by (simp_all add: inc_def maxDimBits_def maxDimVal_def)
  have "(4 :: nat) \<le> 16"
    by simp
  from span_bracketing [OF this keys] t fits keys show ?thesis
    by auto
qed

text \<open>
  The claim as stated fails: the keys with \<open>x0 = 65535\<close> and with \<open>x0 = 61441\<close> (all other
  fields 0) have the same truncated key at precision 4, the span rectangles of the first
  have \<open>x0 = 0\<close> (minimum) and \<open>x0 = 61440\<close> (maximum), and \<open>61441\<close> is not between them:
  it is above the lower bound \<open>61440\<close>, and the upper bound \<open>61440 + 4096\<close> is stored as \<open>0\<close>.
\<close>

theorem span_bracketing_counterexample:
  "minRectVal 9838113385990848520 4 = minRectVal 9838263505978427528 4
   \<and> minSpanRect (minRect \<lparr>Val = 9838263505978427528\<rparr> 4) 4 = Some \<lparr>Val = 562949953421312\<rparr>
   \<and> maxSpanRect (minRect \<lparr>Val = 9838263505978427528\<rparr> 4) 4 = Some \<lparr>Val = 9839520760874401792\<rparr>
   \<and> X0 \<lparr>Val = 562949953421312\<rparr> = Some 0
   \<and> X0 \<lparr>Val = 9839520760874401792\<rparr> = Some 61440
   \<and> X0 \<lparr>Val = 9838113385990848520\<rparr> = Some 61441
   \<and> \<not> ((0 :: go_uint) \<le> 61441 \<and> (61441 :: go_uint) \<le> 61440)
   \<and> \<not> ((61440 :: go_uint) \<le> 61441 \<and> (61441 :: go_uint) \<le> 0)"
  by (simp add: codec_eval)

lemma inc_mono:
  assumes "p' \<le> p"
  shows "inc p \<le> inc p'"
  unfolding inc_def by (rule power_increasing) (use assms in simp_all)

lemma inc_half:
  assumes "1 \<le> p'"
  shows "2 * inc p' \<le> 2 ^ 16"
proof -
  have "inc p' \<le> inc 1"
    by (rule inc_mono [OF assms])
  then show ?thesis
    by (simp add: inc_def maxDimBits_def)
qed

lemma gap_mono:
  fixes x :: nat
  assumes "x < 2 ^ 16" and "1 \<le> p'" and "p' < p" and "p \<le> 16"
    and t: "t = x div inc p * inc p" and t': "t' = x div inc p' * inc p'"
    and fits: "t + inc p \<le> maxDimVal"
  shows "\<bar>int ((t + inc p) mod 2 ^ 16) - int t\<bar> \<le> \<bar>int ((t' + inc p') mod 2 ^ 16) - int t'\<bar>"
proof -
  have p': "p' \<le> 16"
    using assms(3,4) by simp
  have "(t + inc p) mod 2 ^ 16 = t + inc p"
    using fits by (simp add: maxDimVal_def)
  then have lhs: "\<bar>int ((t + inc p) mod 2 ^ 16) - int t\<bar> = int (inc p)"
    by simp
  have mono: "inc p \<le> inc p'"
    using assms(3) by (intro inc_mono) simp
  have le: "t' + inc p' \<le> 2 ^ 16"
    unfolding t' by (rule trunc_step_bounds(3) [OF assms(1) p'])
  show ?thesis
  proof (cases "t' + inc p' < 2 ^ 16")
    case True
    then have "(t' + inc p') mod 2 ^ 16 = t' + inc p'"
      by simp
    then have "\<bar>int ((t' + inc p') mod 2 ^ 16) - int t'\<bar> = int (inc p')"
      by simp
    with lhs mono show ?thesis
      by simp
  next
    case False
    with le have full: "t' + inc p' = 2 ^ 16"
      by simp
    then have "(t' + inc p') mod 2 ^ 16 = 0"
      by simp
    then have rhs: "\<bar>int ((t' + inc p') mod 2 ^ 16) - int t'\<bar> = int t'"
      by simp
    have "inc p' \<le> t'"
      using full inc_half [OF assms(2)] by simp
    with mono have "inc p \<le> t'"
      by (rule le_trans)
    with lhs rhs show ?thesis
      by simp
  qed
qed

lemma field_gap_mono:
  fixes x t t' :: go_uint
  assumes "1 \<le> p'" and "p' < p" and "p \<le> 16" and "unat x < 2 ^ 16"
    and t: "unat t = unat x div inc p * inc p" and t': "unat t' = unat x div inc p' * inc p'"
    and fits: "unat t + inc p \<le> maxDimVal"
  shows "\<bar>int (unat (take_bit 16 (t + of_nat (inc p)))) - int (unat (take_bit 16 t))\<bar>
       \<le> \<bar>int (unat (take_bit 16 (t' + of_nat (inc p')))) - int (unat (take_bit 16 t'))\<bar>"
proof -
  have lt: "unat t < 2 ^ 16" "unat t' < 2 ^ 16"
    by (rule trunc_lt [OF assms(4) t], rule trunc_lt [OF assms(4) t'])
  show ?thesis
    unfolding take_bit_16_small [OF lt(1)] take_bit_16_small [OF lt(2)]
      unat_add_inc [OF lt(1) inc_le] unat_add_inc [OF lt(2) inc_le]
    by (rule gap_mono [OF assms(4,1,2,3) t t' fits])
qed

lemma field_gap_mono':
  fixes x t t' :: go_uint
  assumes "1 \<le> p'" and "p' < p" and "p \<le> 16" and "unat x < 2 ^ 16"
    and t: "unat t = unat x div inc p * inc p" and t': "unat t' = unat x div inc p' * inc p'"
    and fits: "unat t + inc p \<le> maxDimVal"
  shows "\<bar>int (unat (take_bit 16 t)) - int (unat (take_bit 16 (t + of_nat (inc p))))\<bar>
       \<le> \<bar>int (unat (take_bit 16 t')) - int (unat (take_bit 16 (t' + of_nat (inc p'))))\<bar>"
  using field_gap_mono [OF assms] by (simp only: abs_minus_commute)

text \<open>
  Claim C7 (monotonic precision), as amended. For every rectangle and all precisions
  \<open>1 \<le> p' < p \<le> 16\<close>, the four span rectangles are computed without a panic, and on
  every field whose truncated value at precision \<open>p\<close> plus the step \<open>2^(16 - p)\<close> is at
  most \<open>2^16 - 1\<close>, the distance between the minimum and the maximum span rectangle at
  precision \<open>p'\<close> is at least the distance at precision \<open>p\<close>.
\<close>

theorem precision_gap_monotone:
  assumes "1 \<le> p'" and "p' < p" and "p \<le> 16"
  shows "\<exists>mn mx mn' mx'.
      minSpanRect (minRect rect p) p = Some mn \<and> maxSpanRect (minRect rect p) p = Some mx
    \<and> minSpanRect (minRect rect p') p' = Some mn' \<and> maxSpanRect (minRect rect p') p' = Some mx'
    \<and> (\<exists>t a b a' b'. X0 (minRect rect p) = Some t
          \<and> X0 mn = Some a \<and> X0 mx = Some b \<and> X0 mn' = Some a' \<and> X0 mx' = Some b'
          \<and> (unat t + inc p \<le> maxDimVal \<longrightarrow>
               \<bar>int (unat a) - int (unat b)\<bar> \<le> \<bar>int (unat a') - int (unat b')\<bar>))
    \<and> (\<exists>t a b a' b'. X1 (minRect rect p) = Some t
          \<and> X1 mn = Some a \<and> X1 mx = Some b \<and> X1 mn' = Some a' \<and> X1 mx' = Some b'
          \<and> (unat t + inc p \<le> maxDimVal \<longrightarrow>
               \<bar>int (unat a) - int (unat b)\<bar> \<le> \<bar>int (unat a') - int (unat b')\<bar>))
    \<and> (\<exists>t a b a' b'. Y0 (minRect rect p) = Some t
          \<and> Y0 mn = Some a \<and> Y0 mx = Some b \<and> Y0 mn' = Some a' \<and> Y0 mx' = Some b'
          \<and> (unat t + inc p \<le> maxDimVal \<longrightarrow>
               \<bar>int (unat a) - int (unat b)\<bar> \<le> \<bar>int (unat a') - int (unat b')\<bar>))
    \<and> (\<exists>t a b a' b'. Y1 (minRect rect p) = Some t
          \<and> Y1 mn = Some a \<and> Y1 mx = Some b \<and> Y1 mn' = Some a' \<and> Y1 mx' = Some b'
          \<and> (unat t + inc p \<le> maxDimVal \<longrightarrow>
               \<bar>int (unat a) - int (unat b)\<bar> \<le> \<bar>int (unat a') - int (unat b')\<bar>))"
proof -
  have p': "p' \<le> 16"
    using assms(2,3) by simp
  obtain x0 tx0 :: go_uint where x0: "X0 rect = Some x0" and tx0: "X0 (minRect rect p) = Some tx0"
    and x0_t: "unat x0 < 2 ^ 16" "unat tx0 = unat x0 div inc p * inc p"
    using X0_trunc [OF assms(3), of rect] by blast
  obtain ux0 :: go_uint where ux0: "X0 (minRect rect p') = Some ux0"
    and x0_u: "unat ux0 = unat x0 div inc p' * inc p'"
    using X0_trunc [OF p', of rect] x0 by auto
  obtain x1 tx1 :: go_uint where x1: "X1 rect = Some x1" and tx1: "X1 (minRect rect p) = Some tx1"
    and x1_t: "unat x1 < 2 ^ 16" "unat tx1 = unat x1 div inc p * inc p"
    using X1_trunc [OF assms(3), of rect] by blast
  obtain ux1 :: go_uint where ux1: "X1 (minRect rect p') = Some ux1"
    and x1_u: "unat ux1 = unat x1 div inc p' * inc p'"
    using X1_trunc [OF p', of rect] x1 by auto
  obtain y0 ty0 :: go_uint where y0: "Y0 rect = Some y0" and ty0: "Y0 (minRect rect p) = Some ty0"
    and y0_t: "unat y0 < 2 ^ 16" "unat ty0 = unat y0 div inc p * inc p"
    using Y0_trunc [OF assms(3), of rect] by blast
  obtain uy0 :: go_uint where uy0: "Y0 (minRect rect p') = Some uy0"
    and y0_u: "unat uy0 = unat y0 div inc p' * inc p'"
    using Y0_trunc [OF p', of rect] y0 by auto
  obtain y1 ty1 :: go_uint where y1: "Y1 rect = Some y1" and ty1: "Y1 (minRect rect p) = Some ty1"
    and y1_t: "unat y1 < 2 ^ 16" "unat ty1 = unat y1 div inc p * inc p"
    using Y1_trunc [OF assms(3), of rect] by blast
  obtain uy1 :: go_uint where uy1: "Y1 (minRect rect p') = Some uy1"
    and y1_u: "unat uy1 = unat y1 div inc p' * inc p'"
    using Y1_trunc [OF p', of rect] y1 by auto
  obtain mn where mn: "minSpanRect (minRect rect p) p = Some mn"
    and mn_x0: "X0 mn = Some (take_bit 16 (tx0 + of_nat (inc p)))"
    and mn_x1: "X1 mn = Some (take_bit 16 tx1)"
    and mn_y0: "Y0 mn = Some (take_bit 16 (ty0 + of_nat (inc p)))"
    and mn_y1: "Y1 mn = Some (take_bit 16 ty1)"
    using minSpanRect_fields [OF tx0 tx1 ty0 ty1, where p = p] by blast
  obtain mx where mx: "maxSpanRect (minRect rect p) p = Some mx"
    and mx_x0: "X0 mx = Some (take_bit 16 tx0)"
    and mx_x1: "X1 mx = Some (take_bit 16 (tx1 + of_nat (inc p)))"
    and mx_y0: "Y0 mx = Some (take_bit 16 ty0)"
    and mx_y1: "Y1 mx = Some (take_bit 16 (ty1 + of_nat (inc p)))"
    using maxSpanRect_fields [OF tx0 tx1 ty0 ty1, where p = p] by blast
  obtain mn' where mn': "minSpanRect (minRect rect p') p' = Some mn'"
    and mn'_x0: "X0 mn' = Some (take_bit 16 (ux0 + of_nat (inc p')))"
    and mn'_x1: "X1 mn' = Some (take_bit 16 ux1)"
    and mn'_y0: "Y0 mn' = Some (take_bit 16 (uy0 + of_nat (inc p')))"
    and mn'_y1: "Y1 mn' = Some (take_bit 16 uy1)"
    using minSpanRect_fields [OF ux0 ux1 uy0 uy1, where p = p'] by blast
  obtain mx' where mx': "maxSpanRect (minRect rect p') p' = Some mx'"
    and mx'_x0: "X0 mx' = Some (take_bit 16 ux0)"
    and mx'_x1: "X1 mx' = Some (take_bit 16 (ux1 + of_nat (inc p')))"
    and mx'_y0: "Y0 mx' = Some (take_bit 16 uy0)"
    and mx'_y1: "Y1 mx' = Some (take_bit 16 (uy1 + of_nat (inc p')))"
    using maxSpanRect_fields [OF ux0 ux1 uy0 uy1, where p = p'] by blast
  have fx0: "(\<exists>t a b a' b'. X0 (minRect rect p) = Some t
      \<and> X0 mn = Some a \<and> X0 mx = Some b \<and> X0 mn' = Some a' \<and> X0 mx' = Some b'
      \<and> (unat t + inc p \<le> maxDimVal \<longrightarrow>
           \<bar>int (unat a) - int (unat b)\<bar> \<le> \<bar>int (unat a') - int (unat b')\<bar>))"
    using tx0 mn_x0 mx_x0 mn'_x0 mx'_x0 field_gap_mono [OF assms x0_t x0_u] by blast
  have fx1: "(\<exists>t a b a' b'. X1 (minRect rect p) = Some t
      \<and> X1 mn = Some a \<and> X1 mx = Some b \<and> X1 mn' = Some a' \<and> X1 mx' = Some b'
      \<and> (unat t + inc p \<le> maxDimVal \<longrightarrow>
           \<bar>int (unat a) - int (unat b)\<bar> \<le> \<bar>int (unat a') - int (unat b')\<bar>))"
    using tx1 mn_x1 mx_x1 mn'_x1 mx'_x1 field_gap_mono' [OF assms x1_t x1_u] by blast
  have fy0: "(\<exists>t a b a' b'. Y0 (minRect rect p) = Some t
      \<and> Y0 mn = Some a \<and> Y0 mx = Some b \<and> Y0 mn' = Some a' \<and> Y0 mx' = Some b'
      \<and> (unat t + inc p \<le> maxDimVal \<longrightarrow>
           \<bar>int (unat a) - int (unat b)\<bar> \<le> \<bar>int (unat a') - int (unat b')\<bar>))"
    using ty0 mn_y0 mx_y0 mn'_y0 mx'_y0 field_gap_mono [OF assms y0_t y0_u] by blast
  have fy1: "(\<exists>t a b a' b'. Y1 (minRect rect p) = Some t
      \<and> Y1 mn = Some a \<and> Y1 mx = Some b \<and> Y1 mn' = Some a' \<and> Y1 mx' = Some b'
      \<and> (unat t + inc p \<le> maxDimVal \<longrightarrow>
           \<bar>int (unat a) - int (unat b)\<bar> \<le> \<bar>int (unat a') - int (unat b')\<bar>))"
    using ty1 mn_y1 mx_y1 mn'_y1 mx'_y1 field_gap_mono' [OF assms y1_t y1_u] by blast
  from mn mx mn' mx' fx0 fx1 fy0 fy1 show ?thesis
    by blast
qed

theorem precision_gap_monotone_witness:
  "(1 :: nat) \<le> 2 \<and> (2 :: nat) < 4 \<and> (4 :: nat) \<le> 16
   \<and> (\<exists>mn mx mn' mx'.
      minSpanRect (minRect \<lparr>Val = 3823333914475194880\<rparr> 4) 4 = Some mn
    \<and> maxSpanRect (minRect \<lparr>Val = 3823333914475194880\<rparr> 4) 4 = Some mx
    \<and> minSpanRect (minRect \<lparr>Val = 3823333914475194880\<rparr> 2) 2 = Some mn'
    \<and> maxSpanRect (minRect \<lparr>Val = 3823333914475194880\<rparr> 2) 2 = Some mx'
    \<and> (\<exists>a b a' b'. X0 mn = Some a \<and> X0 mx = Some b \<and> X0 mn' = Some a' \<and> X0 mx' = Some b'
          \<and> \<bar>int (unat a) - int (unat b)\<bar> \<le> \<bar>int (unat a') - int (unat b')\<bar>)
    \<and> (\<exists>a b a' b'. X1 mn = Some a \<and> X1 mx = Some b \<and> X1 mn' = Some a' \<and> X1 mx' = Some b'
          \<and> \<bar>int (unat a) - int (unat b)\<bar> \<le> \<bar>int (unat a') - int (unat b')\<bar>)
    \<and> (\<exists>a b a' b'. Y0 mn = Some a \<and> Y0 mx = Some b \<and> Y0 mn' = Some a' \<and> Y0 mx' = Some b'
          \<and> \<bar>int (unat a) - int (unat b)\<bar> \<le> \<bar>int (unat a') - int (unat b')\<bar>)
    \<and> (\<exists>a b a' b'. Y1 mn = Some a \<and> Y1 mx = Some b \<and> Y1 mn' = Some a' \<and> Y1 mx' = Some b'
          \<and> \<bar>int (unat a) - int (unat b)\<bar> \<le> \<bar>int (unat a') - int (unat b')\<bar>))"
proof -
  have t: "X0 (minRect \<lparr>Val = 3823333914475194880\<rparr> 4) = Some 4096"
    "Y0 (minRect \<lparr>Val = 3823333914475194880\<rparr> 4) = Some 36864"
    "X1 (minRect \<lparr>Val = 3823333914475194880\<rparr> 4) = Some 20480"
    "Y1 (minRect \<lparr>Val = 3823333914475194880\<rparr> 4) = Some 53248"
    by (simp_all add: codec_eval)
  have fits: "unat (4096 :: go_uint) + inc 4 \<le> maxDimVal"
    "unat (36864 :: go_uint) + inc 4 \<le> maxDimVal"
    "unat (20480 :: go_uint) + inc 4 \<le> maxDimVal"
    "unat (53248 :: go_uint) + inc 4 \<le> maxDimVal"
    by (simp_all add: inc_def maxDimBits_def maxDimVal_def)
  have "(1 :: nat) \<le> 2" and "(2 :: nat) < 4" and "(4 :: nat) \<le> 16"
    by simp_all
  from precision_gap_monotone [OF this, of "\<lparr>Val = 3823333914475194880\<rparr>"] t fits show ?thesis
    by auto
qed

text \<open>
  The claim as stated fails in two ways. At \<open>p' = 0\<close> the step is \<open>2^16\<close>, which is stored
  as \<open>0\<close>, so both span rectangles of the key \<open>0\<close> are \<open>0\<close> and their distance is \<open>0\<close>,
  while at \<open>p = 1\<close> the distance on \<open>x0\<close> is \<open>32768\<close>. With \<open>x0 = 65535\<close> the sum wraps
  at both \<open>p' = 1\<close> and \<open>p = 2\<close>, and the distance on \<open>x0\<close> grows from \<open>32768\<close> to \<open>49152\<close>.
\<close>

theorem precision_gap_monotone_counterexample:
  "minSpanRect (minRect \<lparr>Val = 0\<rparr> 0) 0 = Some \<lparr>Val = 0\<rparr>
   \<and> maxSpanRect (minRect \<lparr>Val = 0\<rparr> 0) 0 = Some \<lparr>Val = 0\<rparr>
   \<and> minSpanRect (minRect \<lparr>Val = 0\<rparr> 1) 1 = Some \<lparr>Val = 11529215046068469760\<rparr>
   \<and> maxSpanRect (minRect \<lparr>Val = 0\<rparr> 1) 1 = Some \<lparr>Val = 5764607523034234880\<rparr>
   \<and> X0 \<lparr>Val = 0\<rparr> = Some 0
   \<and> X0 \<lparr>Val = 11529215046068469760\<rparr> = Some 32768
   \<and> X0 \<lparr>Val = 5764607523034234880\<rparr> = Some 0
   \<and> \<not> \<bar>int (unat (32768 :: go_uint)) - int (unat (0 :: go_uint))\<bar>
        \<le> \<bar>int (unat (0 :: go_uint)) - int (unat (0 :: go_uint))\<bar>
   \<and> minSpanRect (minRect \<lparr>Val = 9838263505978427528\<rparr> 1) 1 = Some \<lparr>Val = 2305843009213693952\<rparr>
   \<and> maxSpanRect (minRect \<lparr>Val = 9838263505978427528\<rparr> 1) 1 = Some \<lparr>Val = 14987979559889010688\<rparr>
   \<and> minSpanRect (minRect \<lparr>Val = 9838263505978427528\<rparr> 2) 2 = Some \<lparr>Val = 144115188075855872\<rparr>
   \<and> maxSpanRect (minRect \<lparr>Val = 9838263505978427528\<rparr> 2) 2 = Some \<lparr>Val = 10160120759347838976\<rparr>
   \<and> X0 \<lparr>Val = 2305843009213693952\<rparr> = Some 0
   \<and> X0 \<lparr>Val = 14987979559889010688\<rparr> = Some 32768
   \<and> X0 \<lparr>Val = 144115188075855872\<rparr> = Some 0
   \<and> X0 \<lparr>Val = 10160120759347838976\<rparr> = Some 49152
   \<and> \<not> \<bar>int (unat (0 :: go_uint)) - int (unat (49152 :: go_uint))\<bar>
        \<le> \<bar>int (unat (0 :: go_uint)) - int (unat (32768 :: go_uint))\<bar>"
  by (simp add: codec_eval)

section \<open>Rounding to \<open>float32\<close>\<close>

lemma round_half_even_err: "\<bar>of_int (round_half_even x) - x\<bar> \<le> 1 / 2"
proof -
  have "of_int \<lfloor>x\<rfloor> \<le> x" and "x < of_int \<lfloor>x\<rfloor> + 1"
    by linarith+
  then show ?thesis
    unfolding round_half_even_def Let_def by (auto simp add: abs_le_iff)
qed

lemma round_half_even_nonneg: "0 \<le> x \<Longrightarrow> 0 \<le> round_half_even x"
  unfolding round_half_even_def Let_def by auto

lemma round_half_even_of_int: "round_half_even (of_int m) = m"
  unfolding round_half_even_def Let_def by simp

lemma find_upto:
  assumes "P k" and "lo \<le> k" and "k \<le> hi"
  shows "\<exists>e. List.find P [lo..hi] = Some e \<and> lo \<le> e \<and> e \<le> k"
  using assms
proof (induction "nat (k - lo)" arbitrary: lo)
  case 0
  then have "lo = k"
    by simp
  with 0 show ?case
    by (simp add: upto_rec1)
next
  case (Suc n)
  then have lo: "lo < k" "lo \<le> hi"
    by simp_all
  show ?case
  proof (cases "P lo")
    case True
    with lo show ?thesis
      by (simp add: upto_rec1)
  next
    case False
    have "n = nat (k - (lo + 1))"
      using Suc.hyps(2) by simp
    from Suc.hyps(1) [OF this Suc.prems(1) _ Suc.prems(3)] lo
    obtain e where "List.find P [lo + 1..hi] = Some e" and "lo + 1 \<le> e" and "e \<le> k"
      by auto
    with False lo show ?thesis
      by (simp add: upto_rec1)
  qed
qed

lemma f32_round_pos_err:
  assumes "0 \<le> q" and "- 149 \<le> k" and "k \<le> 104" and "q < power_int 2 (k + 24)"
    and "q + power_int 2 k / 2 < 2 ^ 128"
  shows "\<exists>r. f32_round_pos q = Some r \<and> \<bar>r - q\<bar> \<le> power_int 2 k / 2 \<and> 0 \<le> r"
proof -
  from find_upto [of "\<lambda>e. q < power_int 2 (e + 24)" k "- 149" 104] assms(2,3,4)
  obtain e where e: "List.find (\<lambda>e. q < power_int 2 (e + 24)) [- 149..104] = Some e"
    and "e \<le> k"
    by blast
  define u :: rat where "u = power_int 2 e"
  define m where "m = round_half_even (q / u)"
  have u: "0 < u"
    by (simp add: u_def)
  have "u \<le> power_int 2 k"
    unfolding u_def using \<open>e \<le> k\<close> by (intro power_int_increasing) simp_all
  have "\<bar>of_int m * u - q\<bar> = \<bar>of_int m - q / u\<bar> * u"
  proof -
    have "of_int m * u - q = (of_int m - q / u) * u"
      using u by (simp add: field_simps)
    then show ?thesis
      using u by (simp add: abs_mult)
  qed
  also have "\<dots> \<le> 1 / 2 * u"
    unfolding m_def using u by (intro mult_right_mono round_half_even_err) simp
  also have "\<dots> \<le> power_int 2 k / 2"
    using \<open>u \<le> power_int 2 k\<close> by simp
  finally have err: "\<bar>of_int m * u - q\<bar> \<le> power_int 2 k / 2" .
  then have "of_int m * u - q \<le> power_int 2 k / 2"
    by linarith
  with assms(5) have "of_int m * u < 2 ^ 128"
    by linarith
  moreover have "0 \<le> of_int m * u"
  proof -
    have "0 \<le> q / u"
      using assms(1) u by simp
    then have "0 \<le> m"
      unfolding m_def by (rule round_half_even_nonneg)
    with u show ?thesis
      by simp
  qed
  moreover have "f32_round_pos q = (if of_int m * u < 2 ^ 128 then Some (of_int m * u) else None)"
    unfolding f32_round_pos_def e u_def m_def by (simp only: Let_def option.case)
  ultimately show ?thesis
    using err by simp
qed

lemma f32_round_pos_exact_int:
  assumes "0 \<le> n" and "n < 2 ^ 24"
  shows "f32_round_pos (of_int n) = Some (of_int n)"
proof -
  have small: "(of_int n :: rat) < of_int (2 ^ 24)"
    using assms(2) by (simp only: of_int_less_iff)
  then have "(of_int n :: rat) < power_int 2 (0 + 24)"
    by simp
  moreover have "(- 149 :: int) \<le> 0" and "(0 :: int) \<le> 104"
    by simp_all
  ultimately obtain e where
    e: "List.find (\<lambda>e. (of_int n :: rat) < power_int 2 (e + 24)) [- 149..104] = Some e"
    and "e \<le> 0"
    using find_upto [of "\<lambda>e. (of_int n :: rat) < power_int 2 (e + 24)" 0 "- 149" 104] by blast
  define s where "s = nat (- e)"
  have u: "power_int (2 :: rat) e = 1 / 2 ^ s"
    using \<open>e \<le> 0\<close> by (simp add: s_def power_int_def field_simps)
  have "of_int n / power_int (2 :: rat) e = of_int (n * 2 ^ s)"
    by (simp add: u)
  then have "round_half_even (of_int n / power_int 2 e) = n * 2 ^ s"
    by (simp only: round_half_even_of_int)
  then have r: "of_int (round_half_even (of_int n / power_int 2 e)) * power_int (2 :: rat) e = of_int n"
    by (simp add: u)
  have "(of_int n :: rat) < 2 ^ 128"
    using small by simp
  moreover have "f32_round_pos (of_int n) =
      (if of_int (round_half_even (of_int n / power_int 2 e)) * power_int 2 e < (2 :: rat) ^ 128
       then Some (of_int (round_half_even (of_int n / power_int 2 e)) * power_int 2 e) else None)"
    unfolding f32_round_pos_def e by (simp only: Let_def option.case)
  ultimately show ?thesis
    by (simp only: r if_True)
qed

lemma f32_round_small:
  assumes "0 \<le> q" and "q < 2"
  shows "\<exists>r. f32_round q = Some r \<and> \<bar>r - q\<bar> \<le> 1 / 2 ^ 24 \<and> 0 \<le> r"
proof -
  have "q < power_int 2 (- 23 + 24)" and "q + power_int 2 (- 23) / 2 < 2 ^ 128"
    using assms(2) by simp_all
  from f32_round_pos_err [OF assms(1) _ _ this]
  have "\<exists>r. f32_round_pos q = Some r \<and> \<bar>r - q\<bar> \<le> power_int 2 (- 23) / 2 \<and> 0 \<le> r"
    by simp
  moreover have "power_int (2 :: rat) (- 23) / 2 = 1 / 2 ^ 24"
    by simp
  ultimately show ?thesis
    using assms(1) by (simp add: f32_round_def)
qed

lemma f32_round_scaled:
  assumes "0 \<le> q" and "q < 2 ^ 17"
  shows "\<exists>r. f32_round q = Some r \<and> \<bar>r - q\<bar> \<le> 1 / 2 ^ 8 \<and> 0 \<le> r"
proof -
  have "q < power_int 2 (- 7 + 24)" and "q + power_int 2 (- 7) / 2 < 2 ^ 128"
    using assms(2) by simp_all
  from f32_round_pos_err [OF assms(1) _ _ this]
  have "\<exists>r. f32_round_pos q = Some r \<and> \<bar>r - q\<bar> \<le> power_int 2 (- 7) / 2 \<and> 0 \<le> r"
    by simp
  moreover have "power_int (2 :: rat) (- 7) / 2 = 1 / 2 ^ 8"
    by simp
  ultimately show ?thesis
    using assms(1) by (simp add: f32_round_def)
qed

lemma f32_round_of_nat:
  assumes "n < 2 ^ 24"
  shows "f32_round (of_nat n) = Some (of_nat n)"
proof -
  have "int n < 2 ^ 24"
    using assms by (simp only: of_nat_less_numeral_power_cancel_iff)
  then have "f32_round_pos (of_int (int n)) = Some (of_int (int n))"
    by (intro f32_round_pos_exact_int) simp_all
  then show ?thesis
    by (simp add: f32_round_def)
qed

lemma Ratio_err:
  assumes "unat v \<le> maxDimVal"
  shows "\<exists>r. Ratio v = Some r \<and> \<bar>r - of_nat (unat v) / of_nat maxDimVal\<bar> \<le> 1 / 2 ^ 24 \<and> 0 \<le> r"
proof -
  define m where "m = unat v"
  have m: "m \<le> 65535"
    using assms by (simp add: maxDimVal_def m_def)
  then have exact: "f32_round (of_nat m) = Some (of_nat m)"
    by (intro f32_round_of_nat) simp
  have "(of_nat m :: rat) \<le> of_nat 65535"
    using m by (simp only: of_nat_le_iff)
  then have "0 \<le> (of_nat m :: rat) / of_nat maxDimVal"
    and "(of_nat m :: rat) / of_nat maxDimVal < 2"
    by (simp_all add: maxDimVal_def)
  from f32_round_small [OF this] have
    "\<exists>r. Ratio v = Some r \<and> \<bar>r - of_nat m / of_nat maxDimVal\<bar> \<le> 1 / 2 ^ 24 \<and> 0 \<le> r"
    unfolding Ratio_def m_def [symmetric] exact by (simp only: bind.bind_lunit)
  then show ?thesis
    unfolding m_def .
qed

lemma roundtrip_err:
  assumes "0 \<le> x" and "x \<le> 100"
  shows "\<exists>n r. Int_go x = Some n \<and> Ratio n = Some r \<and> \<bar>r - x / 100\<bar> \<le> 2 / 65535"
proof -
  have "0 \<le> x / 100" and "x / 100 < 2"
    using assms by simp_all
  from f32_round_small [OF this] obtain a where
    a: "f32_round (x / 100) = Some a" and "\<bar>a - x / 100\<bar> \<le> 1 / 2 ^ 24" and a0: "0 \<le> a"
    by blast
  then have a_err: "\<bar>a - x / 100\<bar> \<le> 1 / 16777216"
    by simp
  have a1: "a \<le> 1 + 1 / 16777216"
    using a_err assms(2) by linarith
  have "0 \<le> a * 65535" and "a * 65535 < 2 ^ 17"
    using a0 a1 by simp_all
  from f32_round_scaled [OF this] obtain b where
    b: "f32_round (a * 65535) = Some b" and "\<bar>b - a * 65535\<bar> \<le> 1 / 2 ^ 8" and b0: "0 \<le> b"
    by blast
  then have b_err: "\<bar>b - a * 65535\<bar> \<le> 1 / 256"
    by simp
  define t where "t = \<lfloor>b\<rfloor>"
  have t_b: "of_int t \<le> b" "b < of_int t + 1"
    unfolding t_def by linarith+
  have t0: "0 \<le> t"
    unfolding t_def using b0 by simp
  have "b < 65536"
    using b_err a1 by linarith
  then have "(of_int t :: rat) < of_int 65536"
    using t_b(1) by simp
  then have t1: "t < 65536"
    by (simp only: of_int_less_iff)
  define n :: go_uint where "n = of_int t"
  have res: "Int_go x = Some n"
    using t0 t1 b0 by (simp add: Int_go_def a b maxDimVal_def t_def n_def)
  have un: "unat n = nat t"
    unfolding n_def using t0 t1 by (simp add: unat_eq_nat_uint uint_word_of_int take_bit_int_eq_self)
  then have "unat n \<le> maxDimVal"
    using t1 by (simp add: maxDimVal_def)
  from Ratio_err [OF this] obtain r where
    r: "Ratio n = Some r" and r_err: "\<bar>r - of_nat (unat n) / of_nat maxDimVal\<bar> \<le> 1 / 2 ^ 24"
    by blast
  have "(of_nat (nat t) :: rat) = of_int t"
    using t0 by simp
  then have r_err': "\<bar>r - of_int t / 65535\<bar> \<le> 1 / 16777216"
    using r_err unfolding un by (simp add: maxDimVal_def)
  have t_err: "\<bar>of_int t - 65535 * (x / 100)\<bar> \<le> 1 + 1 / 256 + 65535 / 16777216"
    using t_b b_err a_err by linarith
  have "of_int t / 65535 - x / 100 = (of_int t - 65535 * (x / 100)) / 65535"
    by (simp add: field_simps)
  then have "\<bar>of_int t / 65535 - x / 100\<bar> = \<bar>of_int t - 65535 * (x / 100)\<bar> / 65535"
    by (simp only: abs_divide abs_numeral)
  also have "\<dots> \<le> (1 + 1 / 256 + 65535 / 16777216) / 65535"
    using t_err by (intro divide_right_mono) simp_all
  finally have q_err: "\<bar>of_int t / 65535 - x / 100\<bar> \<le> (1 + 1 / 256 + 65535 / 16777216) / 65535" .
  have "\<bar>r - x / 100\<bar> \<le> \<bar>r - of_int t / 65535\<bar> + \<bar>of_int t / 65535 - x / 100\<bar>"
    by linarith
  also have "\<dots> \<le> 1 / 16777216 + (1 + 1 / 256 + 65535 / 16777216) / 65535"
    using r_err' q_err by (rule add_mono)
  also have "\<dots> \<le> 2 / 65535"
    by simp
  finally have "\<bar>r - x / 100\<bar> \<le> 2 / 65535" .
  with r res show ?thesis
    by blast
qed

lemma floor_rat_numeral_div:
  "\<lfloor>(numeral a :: rat) / numeral b\<rfloor> = numeral a div numeral b"
  using floor_divide_of_int_eq [of "numeral a" "numeral b", where ?'a = rat] by simp

text \<open>The equations that evaluate the coordinate mapper on numerals.\<close>

lemmas f32_eval = Ratio_def Int_go_def f32_round_def f32_round_pos_def round_half_even_def
  maxDimVal_def upto.simps Let_def floor_rat_numeral_div

section \<open>Claim about the coordinate mapper\<close>

text \<open>
  Claim C8 (coordinate mapper), as amended. For every field value \<open>v\<close> in
  \<open>[0, 2^16 - 1]\<close>, \<open>Ratio\<close> returns \<open>v / (2^16 - 1)\<close> rounded to \<open>float32\<close>: a
  non-negative value within \<open>2^-24\<close> of the exact quotient, with no factor \<open>domainMax\<close>.
  It inverts \<open>Int\<close> only up to the divisor 100 that \<open>Int\<close> applies: for every \<open>x\<close> in
  \<open>[0, 100]\<close>, \<open>Int x\<close> is defined and \<open>Ratio (Int x)\<close> is within \<open>2 / 65535\<close> of
  \<open>x / 100\<close>. The round trip is lossy with bounded error.
\<close>

theorem coordinate_mapper:
  assumes "unat v \<le> maxDimVal" and "0 \<le> x" and "x \<le> 100"
  shows "(\<exists>r. Ratio v = Some r
            \<and> \<bar>r - of_nat (unat v) / of_nat maxDimVal\<bar> \<le> 1 / 2 ^ 24 \<and> 0 \<le> r)
       \<and> (\<exists>n r. Int_go x = Some n \<and> Ratio n = Some r \<and> \<bar>r - x / 100\<bar> \<le> 2 / 65535)"
  using Ratio_err [OF assms(1)] roundtrip_err [OF assms(2,3)] by blast

theorem coordinate_mapper_witness:
  "unat (32767 :: go_uint) \<le> maxDimVal \<and> (0 :: rat) \<le> 50 \<and> (50 :: rat) \<le> 100
   \<and> (\<exists>r. Ratio 32767 = Some r
          \<and> \<bar>r - of_nat (unat (32767 :: go_uint)) / of_nat maxDimVal\<bar> \<le> 1 / 2 ^ 24 \<and> 0 \<le> r)
   \<and> (\<exists>n r. Int_go 50 = Some n \<and> Ratio n = Some r \<and> \<bar>r - 50 / 100\<bar> \<le> 2 / 65535)"
proof -
  have "unat (32767 :: go_uint) \<le> maxDimVal" and "(0 :: rat) \<le> 50" and "(50 :: rat) \<le> 100"
    by (simp_all add: maxDimVal_def)
  with coordinate_mapper [OF this] show ?thesis
    by blast
qed

text \<open>
  The claim as stated fails: for \<open>v = 2^16 - 1\<close> the formula \<open>v / (2^16 - 1) * 100\<close>
  gives 100, and \<open>Ratio\<close> returns 1; and \<open>Ratio (Int 50)\<close> is \<open>65535 / 131072\<close>, just
  below \<open>1 / 2\<close>, not near 50.
\<close>

theorem coordinate_mapper_counterexample:
  "Ratio 65535 = Some 1
   \<and> (1 :: rat) \<noteq> of_nat (unat (65535 :: go_uint)) / (2 ^ 16 - 1) * 100
   \<and> Int_go 50 = Some 32767
   \<and> Ratio 32767 = Some (65535 / 131072)
   \<and> \<not> \<bar>(65535 / 131072 :: rat) - 50\<bar> \<le> 49"
  by (simp add: f32_eval)

end
